theory Spec2Isabelle
  imports Main "HOL-Library.Word"
begin

section \<open>Types.h\<close>

text \<open>
  The scalar types of the book.  \<open>Price\<close> is \<open>std::int32_t\<close>; the program only
  compares and copies prices and never computes with them, so a price is modelled by the
  integer it denotes.  \<open>Quantity\<close> is \<open>std::uint32_t\<close> and \<open>OrderId\<close> is
  \<open>std::uint64_t\<close>; both are machine words, so that the subtraction in \<open>Fill\<close> and
  the sum in \<open>GetOrderInfos\<close> wrap as they do in the program.
  Member names lose the trailing underscore of the source (\<open>bids_\<close> is \<open>bids\<close>).
\<close>

datatype OrderType = GoodTillCancel | FillAndKill

datatype Side = Buy | Sell

type_synonym Price = int
type_synonym Quantity = "32 word"
type_synonym OrderId = "64 word"

text \<open>Everything the program can throw, and the two undefined behaviours its guards exclude.\<close>

datatype error =
    PoolExhausted      \<comment> \<open>\<open>std::runtime_error\<close> of \<open>ObjectPool::acquire\<close>\<close>
  | AlienPointer       \<comment> \<open>\<open>std::logic_error\<close> of \<open>ObjectPool::release\<close>\<close>
  | FillTooLarge       \<comment> \<open>\<open>std::logic_error\<close> of \<open>Order::Fill\<close>\<close>
  | OutOfRange         \<comment> \<open>\<open>std::out_of_range\<close> of \<open>std::map::at\<close>\<close>
  | NullPointer        \<comment> \<open>dereference of the \<open>nullptr\<close> that \<open>front()\<close> returns on an empty list\<close>
  | NotLinked          \<comment> \<open>\<open>OrderList::remove\<close> of a node that is not in the list\<close>

section \<open>Order\<close>

text \<open>
  The class of the single-file variant.  In the variant with \<open>OrderList\<close> the class also
  carries the links \<open>prev_\<close> and \<open>next_\<close> (its header is not among the sources); they
  are represented by the place of the order in its list, see below.
\<close>

record Order =
  orderType :: OrderType
  orderId :: OrderId
  side :: Side
  price :: Price
  initialQuantity :: Quantity
  remainingQuantity :: Quantity

text \<open>The default member initialisers, used by \<open>Order() = default\<close>.\<close>

definition Order_default :: Order where
  "Order_default =
     \<lparr>orderType = GoodTillCancel, orderId = 0, side = Buy, price = 0,
      initialQuantity = 0, remainingQuantity = 0\<rparr>"

definition Order_new :: "OrderType \<Rightarrow> OrderId \<Rightarrow> Side \<Rightarrow> Price \<Rightarrow> Quantity \<Rightarrow> Order" where
  "Order_new ty oid sd pr quantity =
     \<lparr>orderType = ty, orderId = oid, side = sd, price = pr,
      initialQuantity = quantity, remainingQuantity = quantity\<rparr>"

definition GetFilledQuantity :: "Order \<Rightarrow> Quantity" where
  "GetFilledQuantity ord = initialQuantity ord - remainingQuantity ord"

definition IsFilled :: "Order \<Rightarrow> bool" where
  "IsFilled ord = (remainingQuantity ord = 0)"

definition Fill :: "Quantity \<Rightarrow> Order \<Rightarrow> error + Order" where
  "Fill quantity ord =
     (if quantity > remainingQuantity ord then Inl FillTooLarge
      else Inr (ord\<lparr>remainingQuantity := remainingQuantity ord - quantity\<rparr>))"

section \<open>ObjectPool\<close>

text \<open>
  The slab \<open>pool_\<close> is a vector of fixed size; an \<open>Order*\<close> into it is modelled by the
  index of its slot, so the slab is a store from indices to orders together with its size.
  \<open>free_indices_\<close> is a vector used as a stack: \<open>back()\<close> is \<open>last\<close>, \<open>pop_back()\<close>
  is \<open>butlast\<close> and \<open>push_back\<close> appends.
\<close>

type_synonym OrderPointer = nat

record ObjectPool =
  pool :: "nat \<Rightarrow> Order"
  pool_size :: nat
  free_indices :: "nat list"

definition ObjectPool_new :: "nat \<Rightarrow> ObjectPool" where
  "ObjectPool_new n = \<lparr>pool = (\<lambda>_. Order_default), pool_size = n, free_indices = [0..<n]\<rparr>"

definition acquire :: "Order \<Rightarrow> ObjectPool \<Rightarrow> error + (OrderPointer \<times> ObjectPool)" where
  "acquire ord p =
     (if free_indices p = [] then Inl PoolExhausted
      else let index = last (free_indices p)
           in Inr (index, p\<lparr>free_indices := butlast (free_indices p),
                            pool := (pool p)(index := ord)\<rparr>))"

definition release :: "OrderPointer \<Rightarrow> ObjectPool \<Rightarrow> error + ObjectPool" where
  "release index p =
     (if index \<ge> pool_size p then Inl AlienPointer
      else Inr (p\<lparr>free_indices := free_indices p @ [index]\<rparr>))"

definition Fill_at :: "OrderPointer \<Rightarrow> Quantity \<Rightarrow> ObjectPool \<Rightarrow> error + ObjectPool" where
  \<comment> \<open>\<open>ptr->Fill(quantity)\<close>: the fill of the order stored in slot \<open>ptr\<close>\<close>
  "Fill_at ptr quantity p =
     (case Fill quantity (pool p ptr) of
        Inl e \<Rightarrow> Inl e
      | Inr ord \<Rightarrow> Inr (p\<lparr>pool := (pool p)(ptr := ord)\<rparr>))"

section \<open>OrderList\<close>

text \<open>
  The intrusive doubly linked list is represented by the sequence of its nodes from
  \<open>head_\<close> to \<open>tail_\<close>; the links \<open>prev_\<close>/\<open>next_\<close> and the counter \<open>size_\<close> are
  determined by that sequence.  \<open>remove\<close> of a node that is not linked in the list
  has no such representation (the program would corrupt \<open>size_\<close>); it is an error here.
\<close>

type_synonym OrderList = "OrderPointer list"

text \<open>\<open>remove\<close>, \<open>empty\<close> and \<open>size\<close> of the source carry the suffix \<open>_ol\<close> here.\<close>

definition push_back :: "OrderPointer \<Rightarrow> OrderList \<Rightarrow> OrderList" where
  "push_back ptr l = l @ [ptr]"

definition remove_ol :: "OrderPointer \<Rightarrow> OrderList \<Rightarrow> error + OrderList" where
  "remove_ol ptr l = (if ptr \<in> set l then Inr (remove1 ptr l) else Inl NotLinked)"

definition front :: "OrderList \<Rightarrow> OrderPointer option" where
  "front l = (case l of [] \<Rightarrow> None | ptr # _ \<Rightarrow> Some ptr)"

definition pop_front :: "OrderList \<Rightarrow> OrderList" where
  \<comment> \<open>\<open>if (head_) remove(head_)\<close>\<close>
  "pop_front l = (case l of [] \<Rightarrow> [] | ptr # rest \<Rightarrow> rest)"

definition empty_ol :: "OrderList \<Rightarrow> bool" where
  "empty_ol l = (l = [])"

definition size_ol :: "OrderList \<Rightarrow> nat" where
  "size_ol l = length l"

section \<open>The two price maps\<close>

text \<open>
  A \<open>std::map<Price, OrderList, Compare>\<close> is the list of its entries in iteration order.
  The comparison is a parameter: \<open>(>)\<close> for \<open>bids_\<close> (\<open>std::greater\<close>), \<open>(<)\<close> for
  \<open>asks_\<close> (\<open>std::less\<close>).  \<open>begin()\<close> is the first entry of the list.
\<close>

type_synonym PriceMap = "(Price \<times> OrderList) list"

definition map_at :: "Price \<Rightarrow> PriceMap \<Rightarrow> error + OrderList" where
  \<comment> \<open>\<open>m.at(k)\<close>\<close>
  "map_at k m = (case map_of m k of None \<Rightarrow> Inl OutOfRange | Some l \<Rightarrow> Inr l)"

fun map_subscript :: "(Price \<Rightarrow> Price \<Rightarrow> bool) \<Rightarrow> Price \<Rightarrow> PriceMap \<Rightarrow> PriceMap" where
  \<comment> \<open>the effect of \<open>m[k]\<close> on the map: an empty list is inserted at a key that is absent\<close>
  "map_subscript cmp k [] = [(k, [])]"
| "map_subscript cmp k ((k', l) # m) =
     (if k = k' then (k', l) # m
      else if cmp k k' then (k, []) # (k', l) # m
      else (k', l) # map_subscript cmp k m)"

fun map_assign :: "Price \<Rightarrow> OrderList \<Rightarrow> PriceMap \<Rightarrow> PriceMap" where
  \<comment> \<open>a write through a reference to the list stored at key \<open>k\<close>\<close>
  "map_assign k l' [] = []"
| "map_assign k l' ((k', l) # m) =
     (if k = k' then (k', l') # m else (k', l) # map_assign k l' m)"

fun map_erase :: "Price \<Rightarrow> PriceMap \<Rightarrow> PriceMap" where
  \<comment> \<open>\<open>m.erase(k)\<close>\<close>
  "map_erase k [] = []"
| "map_erase k ((k', l) # m) = (if k = k' then m else (k', l) # map_erase k m)"

definition level_at :: "Price \<Rightarrow> PriceMap \<Rightarrow> OrderList" where
  \<comment> \<open>a read through a reference to the list stored at key \<open>k\<close>\<close>
  "level_at k m = (case map_of m k of None \<Rightarrow> [] | Some l \<Rightarrow> l)"

section \<open>OrderBook\<close>

datatype TradeInfo = TradeInfo (ti_orderId: OrderId) (ti_price: Price) (ti_quantity: Quantity)

datatype Trade = Trade (GetBidTrade: TradeInfo) (GetAskTrade: TradeInfo)

datatype LevelInfo = LevelInfo (li_price: Price) (li_quantity: Quantity)

datatype OrderBookLevelInfos = OrderBookLevelInfos (GetBids: "LevelInfo list") (GetAsks: "LevelInfo list")

record OrderBook =
  bids :: PriceMap
  asks :: PriceMap
  orders :: "OrderId \<rightharpoonup> OrderPointer"
  trades :: "Trade list"
  orderPool :: ObjectPool

definition OrderBook_new :: OrderBook where
  "OrderBook_new =
     \<lparr>bids = [], asks = [], orders = Map.empty, trades = [],
      orderPool = ObjectPool_new 1000000\<rparr>"

definition deref :: "OrderBook \<Rightarrow> OrderPointer \<Rightarrow> Order" where
  "deref s ptr = pool (orderPool s) ptr"

definition CanMatch :: "Side \<Rightarrow> Price \<Rightarrow> OrderBook \<Rightarrow> bool" where
  "CanMatch sd pr s =
     (if sd = Buy then
        (case asks s of [] \<Rightarrow> False | (bestAsk, _) # _ \<Rightarrow> pr \<ge> bestAsk)
      else
        (case bids s of [] \<Rightarrow> False | (bestBid, _) # _ \<Rightarrow> pr \<le> bestBid))"

definition CancelOrder :: "OrderId \<Rightarrow> OrderBook \<Rightarrow> error + OrderBook" where
  "CancelOrder oid s =
     (case orders s oid of
        None \<Rightarrow> Inr s
      | Some ptr \<Rightarrow>
          let s1 = s\<lparr>orders := (orders s)(oid := None)\<rparr>;
              pr = price (deref s1 ptr)
          in if side (deref s1 ptr) = Sell then
               (case map_at pr (asks s1) of
                  Inl e \<Rightarrow> Inl e
                | Inr l \<Rightarrow>
                    (case remove_ol ptr l of
                       Inl e \<Rightarrow> Inl e
                     | Inr l' \<Rightarrow>
                         let s2 = s1\<lparr>asks := map_assign pr l' (asks s1)\<rparr>;
                             s3 = (if empty_ol l' then s2\<lparr>asks := map_erase pr (asks s2)\<rparr> else s2)
                         in (case release ptr (orderPool s3) of
                               Inl e \<Rightarrow> Inl e
                             | Inr p \<Rightarrow> Inr (s3\<lparr>orderPool := p\<rparr>))))
             else
               (case map_at pr (bids s1) of
                  Inl e \<Rightarrow> Inl e
                | Inr l \<Rightarrow>
                    (case remove_ol ptr l of
                       Inl e \<Rightarrow> Inl e
                     | Inr l' \<Rightarrow>
                         let s2 = s1\<lparr>bids := map_assign pr l' (bids s1)\<rparr>;
                             s3 = (if empty_ol l' then s2\<lparr>bids := map_erase pr (bids s2)\<rparr> else s2)
                         in (case release ptr (orderPool s3) of
                               Inl e \<Rightarrow> Inl e
                             | Inr p \<Rightarrow> Inr (s3\<lparr>orderPool := p\<rparr>)))))"

subsection \<open>MatchOrders\<close>

text \<open>
  The block run when the order in slot \<open>ptr\<close> is filled: \<open>pop_front\<close> on the list
  bound to the best level, \<open>orders_.erase\<close>, \<open>orderPool_.release\<close>.
\<close>

definition retire_bid :: "Price \<Rightarrow> OrderPointer \<Rightarrow> OrderBook \<Rightarrow> error + OrderBook" where
  "retire_bid bidPrice bid s =
     (let s1 = s\<lparr>bids := map_assign bidPrice (pop_front (level_at bidPrice (bids s))) (bids s)\<rparr>;
          s2 = s1\<lparr>orders := (orders s1)(orderId (deref s1 bid) := None)\<rparr>
      in case release bid (orderPool s2) of
           Inl e \<Rightarrow> Inl e
         | Inr p \<Rightarrow> Inr (s2\<lparr>orderPool := p\<rparr>))"

definition retire_ask :: "Price \<Rightarrow> OrderPointer \<Rightarrow> OrderBook \<Rightarrow> error + OrderBook" where
  "retire_ask askPrice ask s =
     (let s1 = s\<lparr>asks := map_assign askPrice (pop_front (level_at askPrice (asks s))) (asks s)\<rparr>;
          s2 = s1\<lparr>orders := (orders s1)(orderId (deref s1 ask) := None)\<rparr>
      in case release ask (orderPool s2) of
           Inl e \<Rightarrow> Inl e
         | Inr p \<Rightarrow> Inr (s2\<lparr>orderPool := p\<rparr>))"

text \<open>
  One pass through the body of the inner \<open>while\<close>.  \<open>bids\<close> and \<open>asks\<close> of the source
  are references to the lists stored at \<open>bidPrice\<close> and \<open>askPrice\<close>, so they are read
  and written at these keys.  The result carries whether the pass ended in \<open>break\<close>.
\<close>

definition match_body :: "Price \<Rightarrow> Price \<Rightarrow> OrderBook \<Rightarrow> error + (bool \<times> OrderBook)" where
  "match_body bidPrice askPrice s =
     (case front (level_at bidPrice (bids s)) of
        None \<Rightarrow> Inl NullPointer
      | Some bid \<Rightarrow>
     (case front (level_at askPrice (asks s)) of
        None \<Rightarrow> Inl NullPointer
      | Some ask \<Rightarrow>
     (let quantity = min (remainingQuantity (deref s bid)) (remainingQuantity (deref s ask))
      in case Fill_at bid quantity (orderPool s) of
        Inl e \<Rightarrow> Inl e
      | Inr p1 \<Rightarrow>
     (case Fill_at ask quantity p1 of
        Inl e \<Rightarrow> Inl e
      | Inr p2 \<Rightarrow>
     (let s2 = s\<lparr>orderPool := p2\<rparr>
      in case (if IsFilled (deref s2 bid) then retire_bid bidPrice bid s2 else Inr s2) of
        Inl e \<Rightarrow> Inl e
      | Inr s3 \<Rightarrow>
     (case (if IsFilled (deref s3 ask) then retire_ask askPrice ask s3 else Inr s3) of
        Inl e \<Rightarrow> Inl e
      | Inr s4 \<Rightarrow>
     (let s5 = s4\<lparr>trades := trades s4 @
                     [Trade (TradeInfo (orderId (deref s4 bid)) (price (deref s4 bid)) quantity)
                            (TradeInfo (orderId (deref s4 ask)) (price (deref s4 ask)) quantity)]\<rparr>;
          bidsEmpty = empty_ol (level_at bidPrice (bids s5));
          asksEmpty = empty_ol (level_at askPrice (asks s5));
          s6 = (if bidsEmpty then s5\<lparr>bids := map_erase bidPrice (bids s5)\<rparr> else s5);
          s7 = (if asksEmpty then s6\<lparr>asks := map_erase askPrice (asks s6)\<rparr> else s6)
      in Inr (bidsEmpty \<or> asksEmpty, s7))))))))"

text \<open>
  The inner \<open>while (bids.size() && asks.size())\<close>.  Nothing in the program bounds the
  number of passes, so a run that never leaves the loop is the value \<open>None\<close>.
\<close>

partial_function (option) match_level ::
  "Price \<Rightarrow> Price \<Rightarrow> OrderBook \<Rightarrow> (error + OrderBook) option" where
  "match_level bidPrice askPrice s =
     (if size_ol (level_at bidPrice (bids s)) \<noteq> 0 \<and> size_ol (level_at askPrice (asks s)) \<noteq> 0 then
        (case match_body bidPrice askPrice s of
           Inl e \<Rightarrow> Some (Inl e)
         | Inr (brk, s') \<Rightarrow> if brk then Some (Inr s') else match_level bidPrice askPrice s')
      else Some (Inr s))"

text \<open>The outer \<open>while (true)\<close>.\<close>

partial_function (option) match_loop :: "OrderBook \<Rightarrow> (error + OrderBook) option" where
  "match_loop s =
     (case bids s of
        [] \<Rightarrow> Some (Inr s)
      | (bidPrice, _) # _ \<Rightarrow>
     (case asks s of
        [] \<Rightarrow> Some (Inr s)
      | (askPrice, _) # _ \<Rightarrow>
          if bidPrice < askPrice then Some (Inr s)
          else Option.bind (match_level bidPrice askPrice s)
                 (\<lambda>r. case r of Inl e \<Rightarrow> Some (Inl e) | Inr s' \<Rightarrow> match_loop s')))"

text \<open>The two blocks after the loop: the head of the best level is cancelled when it is FillAndKill.\<close>

definition sweep :: "PriceMap \<Rightarrow> OrderBook \<Rightarrow> error + OrderBook" where
  "sweep m s =
     (case m of
        [] \<Rightarrow> Inr s
      | (_, l) # _ \<Rightarrow>
          if \<not> empty_ol l then
            (case front l of
               None \<Rightarrow> Inl NullPointer
             | Some ptr \<Rightarrow>
                 if orderType (deref s ptr) = FillAndKill
                 then CancelOrder (orderId (deref s ptr)) s else Inr s)
          else Inr s)"

definition MatchOrders :: "OrderBook \<Rightarrow> (error + Trade list \<times> OrderBook) option" where
  "MatchOrders s =
     Option.bind (match_loop (s\<lparr>trades := []\<rparr>))
       (\<lambda>r. Some (case r of
                    Inl e \<Rightarrow> Inl e
                  | Inr s1 \<Rightarrow>
                 (case sweep (bids s1) s1 of
                    Inl e \<Rightarrow> Inl e
                  | Inr s2 \<Rightarrow>
                 (case sweep (asks s2) s2 of
                    Inl e \<Rightarrow> Inl e
                  | Inr s3 \<Rightarrow> Inr (trades s3, s3)))))"

subsection \<open>The public operations\<close>

text \<open>
  A result is the value of the returned expression together with the book afterwards.
  \<open>AddOrder\<close> returns a \<open>const Trades&\<close>; what the reference is bound to and how long
  that lives is not part of this model, which takes the list the expression denotes.
  An exception is thrown by \<open>acquire\<close> before the book is touched.
\<close>

definition AddOrder ::
  "OrderType \<Rightarrow> OrderId \<Rightarrow> Side \<Rightarrow> Price \<Rightarrow> Quantity \<Rightarrow> OrderBook
     \<Rightarrow> (error + Trade list \<times> OrderBook) option" where
  "AddOrder ty oid sd pr quantity s =
     (if orders s oid \<noteq> None then Some (Inr ([], s\<lparr>trades := []\<rparr>))
      else if ty = FillAndKill \<and> \<not> CanMatch sd pr s then Some (Inr ([], s))
      else
        (case acquire (Order_new ty oid sd pr quantity) (orderPool s) of
           Inl e \<Rightarrow> Some (Inl e)
         | Inr (ptr, p) \<Rightarrow>
             let s1 = s\<lparr>orderPool := p\<rparr>;
                 k = price (deref s1 ptr);
                 s2 = (if side (deref s1 ptr) = Buy then
                         s1\<lparr>bids := (let m = map_subscript (>) k (bids s1)
                                     in map_assign k (push_back ptr (level_at k m)) m)\<rparr>
                       else
                         s1\<lparr>asks := (let m = map_subscript (<) k (asks s1)
                                     in map_assign k (push_back ptr (level_at k m)) m)\<rparr>);
                 s3 = s2\<lparr>orders := (if orders s2 (orderId (deref s2 ptr)) = None
                                     then (orders s2)(orderId (deref s2 ptr) \<mapsto> ptr)
                                     else orders s2)\<rparr>
             in MatchOrders s3))"

definition MatchOrder ::
  "OrderId \<Rightarrow> Side \<Rightarrow> Price \<Rightarrow> Quantity \<Rightarrow> OrderBook
     \<Rightarrow> (error + Trade list \<times> OrderBook) option" where
  \<comment> \<open>the arguments are the fields of the \<open>OrderModify\<close>\<close>
  "MatchOrder oid sd pr quantity s =
     (case orders s oid of
        None \<Rightarrow> Some (Inr ([], s))
      | Some existingOrder \<Rightarrow>
          let ty = orderType (deref s existingOrder)
          in (case CancelOrder oid s of
                Inl e \<Rightarrow> Some (Inl e)
              | Inr s1 \<Rightarrow> AddOrder ty oid sd pr quantity s1))"


definition CreateLevelInfos :: "OrderBook \<Rightarrow> Price \<Rightarrow> OrderList \<Rightarrow> LevelInfo" where
  \<comment> \<open>\<open>std::accumulate\<close> is a left fold, with an accumulator of type \<open>Quantity\<close>\<close>
  "CreateLevelInfos s pr l =
     LevelInfo pr (foldl (\<lambda>runningSum ptr. runningSum + remainingQuantity (deref s ptr)) 0 l)"

definition GetOrderInfos :: "OrderBook \<Rightarrow> OrderBookLevelInfos" where
  "GetOrderInfos s =
     OrderBookLevelInfos
       (map (\<lambda>(pr, l). CreateLevelInfos s pr l) (bids s))
       (map (\<lambda>(pr, l). CreateLevelInfos s pr l) (asks s))"


section \<open>Event traces\<close>

text \<open>
  The caller's loop feeds the book one event at a time.  \<open>CancelOrder\<close> returns nothing;
  in a trace it is given the empty trade list.  A book is reachable when a sequence of
  public operations, each of which returned, leads to it from the book just constructed.
\<close>

datatype Event =
    Add OrderType OrderId Side Price Quantity
  | Cancel OrderId
  | Modify OrderId Side Price Quantity

fun apply_event :: "Event \<Rightarrow> OrderBook \<Rightarrow> (error + Trade list \<times> OrderBook) option" where
  "apply_event (Add ty oid sd pr quantity) s = AddOrder ty oid sd pr quantity s"
| "apply_event (Cancel oid) s =
     Some (case CancelOrder oid s of Inl e \<Rightarrow> Inl e | Inr s' \<Rightarrow> Inr ([], s'))"
| "apply_event (Modify oid sd pr quantity) s = MatchOrder oid sd pr quantity s"

inductive reachable :: "OrderBook \<Rightarrow> bool" where
  init: "reachable OrderBook_new"
| step: "reachable s \<Longrightarrow> apply_event ev s = Some (Inr (ts, s')) \<Longrightarrow> reachable s'"

section \<open>Books of the end-to-end scenarios\<close>

definition book_bid1 :: "Quantity \<Rightarrow> OrderBook" where
  \<comment> \<open>the fresh book after \<open>AddOrder(GoodTillCancel, 1, Buy, 100, q)\<close>\<close>
  "book_bid1 q =
     \<lparr>bids = [(100, [999999])], asks = [], orders = [1 \<mapsto> 999999], trades = [],
      orderPool =
        \<lparr>pool = (\<lambda>_. Order_default)(999999 := Order_new GoodTillCancel 1 Buy 100 q),
         pool_size = 1000000, free_indices = [0..<999999]\<rparr>\<rparr>"

definition book_S5 :: OrderBook where
  \<comment> \<open>the book at the end of scenario S5\<close>
  "book_S5 =
     \<lparr>bids = [], asks = [], orders = Map.empty,
      trades = [Trade (TradeInfo 1 100 4) (TradeInfo 2 100 4)],
      orderPool =
        \<lparr>pool = (\<lambda>_. Order_default)
           (999999 := (Order_new GoodTillCancel 1 Buy 100 4)\<lparr>remainingQuantity := 0\<rparr>,
            999998 := (Order_new FillAndKill 2 Sell 100 10)\<lparr>remainingQuantity := 6\<rparr>),
         pool_size = 1000000, free_indices = [0..<999998] @ [999999, 999998]\<rparr>\<rparr>"

definition book_bid2 :: "Quantity \<Rightarrow> Quantity \<Rightarrow> OrderBook" where
  \<comment> \<open>then, after \<open>AddOrder(GoodTillCancel, 2, Buy, 100, q2)\<close>\<close>
  "book_bid2 q1 q2 =
     \<lparr>bids = [(100, [999999, 999998])], asks = [], orders = [1 \<mapsto> 999999, 2 \<mapsto> 999998],
      trades = [],
      orderPool =
        \<lparr>pool = (\<lambda>_. Order_default)
           (999999 := Order_new GoodTillCancel 1 Buy 100 q1,
            999998 := Order_new GoodTillCancel 2 Buy 100 q2),
         pool_size = 1000000, free_indices = [0..<999998]\<rparr>\<rparr>"



definition book_bid_ask :: OrderBook where
  \<comment> \<open>\<open>book_bid1 10\<close> after \<open>AddOrder(GoodTillCancel, 2, Sell, 101, 5)\<close>\<close>
  "book_bid_ask =
     \<lparr>bids = [(100, [999999])], asks = [(101, [999998])],
      orders = [1 \<mapsto> 999999, 2 \<mapsto> 999998], trades = [],
      orderPool =
        \<lparr>pool = (\<lambda>_. Order_default)
           (999999 := Order_new GoodTillCancel 1 Buy 100 10,
            999998 := Order_new GoodTillCancel 2 Sell 101 5),
         pool_size = 1000000, free_indices = [0..<999998]\<rparr>\<rparr>"

definition book_partial :: OrderBook where
  \<comment> \<open>\<open>book_bid1 10\<close> after \<open>AddOrder(GoodTillCancel, 2, Sell, 99, 7)\<close>\<close>
  "book_partial =
     \<lparr>bids = [(100, [999999])], asks = [], orders = [1 \<mapsto> 999999],
      trades = [Trade (TradeInfo 1 100 7) (TradeInfo 2 99 7)],
      orderPool =
        \<lparr>pool = (\<lambda>_. Order_default)
           (999999 := (Order_new GoodTillCancel 1 Buy 100 10)\<lparr>remainingQuantity := 3\<rparr>,
            999998 := (Order_new GoodTillCancel 2 Sell 99 7)\<lparr>remainingQuantity := 0\<rparr>),
         pool_size = 1000000, free_indices = [0..<999998] @ [999998]\<rparr>\<rparr>"


section \<open>Well-formed books\<close>

text \<open>
  The orders linked in one side, from the best level on and from head to tail within a
  level, and the orders linked anywhere in the book.
\<close>

definition handles :: "PriceMap \<Rightarrow> OrderPointer list" where
  "handles m = concat (map snd m)"

definition live :: "OrderBook \<Rightarrow> OrderPointer list" where
  "live s = handles (bids s) @ handles (asks s)"

text \<open>
  One side is in order: the keys are strictly ordered by the comparison of the map, no
  stored level is empty, and every order linked at a key has that price and the side
  of the map.
\<close>

definition side_ok :: "(Price \<Rightarrow> Price \<Rightarrow> bool) \<Rightarrow> Side \<Rightarrow> OrderBook \<Rightarrow> PriceMap \<Rightarrow> bool" where
  "side_ok cmp sd s m \<longleftrightarrow>
     sorted_wrt cmp (map fst m) \<and>
     (\<forall>(k, l) \<in> set m. l \<noteq> [] \<and> (\<forall>h \<in> set l. side (deref s h) = sd \<and> price (deref s h) = k))"

text \<open>
  The structural invariant of the book: both sides are in order; no order is linked
  twice; the free stack has no repetition, holds no linked order and only slots of the
  slab; every linked order is a slot of the slab and is found in the ID index under its
  own id; and the ID index holds nothing else.
\<close>

definition wf_book :: "OrderBook \<Rightarrow> bool" where
  "wf_book s \<longleftrightarrow>
     side_ok (>) Buy s (bids s) \<and> side_ok (<) Sell s (asks s) \<and>
     distinct (live s) \<and> distinct (free_indices (orderPool s)) \<and>
     set (live s) \<inter> set (free_indices (orderPool s)) = {} \<and>
     (\<forall>h \<in> set (live s) \<union> set (free_indices (orderPool s)). h < pool_size (orderPool s)) \<and>
     (\<forall>h \<in> set (live s). orders s (orderId (deref s h)) = Some h) \<and>
     (\<forall>oid h. orders s oid = Some h \<longrightarrow> h \<in> set (live s) \<and> orderId (deref s h) = oid)"

text \<open>No bid price reaches an ask price.\<close>

definition uncrossed :: "OrderBook \<Rightarrow> bool" where
  "uncrossed s \<longleftrightarrow> (\<forall>bp \<in> fst ` set (bids s). \<forall>ap \<in> fst ` set (asks s). bp < ap)"

text \<open>No FillAndKill order is linked in the book.\<close>

definition no_fak :: "OrderBook \<Rightarrow> bool" where
  "no_fak s \<longleftrightarrow> (\<forall>h \<in> set (live s). orderType (deref s h) \<noteq> FillAndKill)"

text \<open>A FillAndKill order is linked in a side only as the head of its first level.\<close>

definition fak_first :: "OrderBook \<Rightarrow> PriceMap \<Rightarrow> bool" where
  "fak_first s m \<longleftrightarrow>
     (\<forall>h \<in> set (handles m). orderType (deref s h) = FillAndKill \<longrightarrow>
        (\<exists>k l r. m = (k, h # l) # r))"

text \<open>A linked order with nothing remaining was submitted with quantity 0.\<close>

definition zero_only_initial :: "OrderBook \<Rightarrow> bool" where
  "zero_only_initial s \<longleftrightarrow>
     (\<forall>h \<in> set (live s). remainingQuantity (deref s h) = 0 \<longrightarrow> initialQuantity (deref s h) = 0)"

text \<open>Every trade in the buffer has a bid leg priced at or above its ask leg.\<close>

definition trades_ok :: "Trade list \<Rightarrow> bool" where
  "trades_ok ts \<longleftrightarrow> (\<forall>t \<in> set ts. ti_price (GetAskTrade t) \<le> ti_price (GetBidTrade t))"

text \<open>The orders that are the last of their list wherever they are linked.\<close>

definition tails :: "OrderBook \<Rightarrow> OrderPointer set" where
  "tails s = {x. \<forall>(k, l) \<in> set (bids s) \<union> set (asks s). x \<in> set l \<longrightarrow> last l = x}"

text \<open>
  From book \<open>s0\<close> to book \<open>s\<close> no order was linked, the slab kept its size, no slot
  changed but in its remaining quantity, which did not grow, and an order that was the
  last of its list still is.
\<close>

definition evolves :: "OrderBook \<Rightarrow> OrderBook \<Rightarrow> bool" where
  "evolves s0 s \<longleftrightarrow>
     set (live s) \<subseteq> set (live s0) \<and>
     pool_size (orderPool s) = pool_size (orderPool s0) \<and>
     (\<forall>h. \<exists>r. r \<le> remainingQuantity (deref s0 h) \<and>
               deref s h = (deref s0 h)\<lparr>remainingQuantity := r\<rparr>) \<and>
     tails s0 \<subseteq> tails s"

text \<open>
  Two steps in which the proofs describe what the operations do to a book: writing the
  remaining quantity of a slot, and taking an order out of the book (out of its list,
  with the level when it was alone there, out of the ID index, onto the free stack).
\<close>

definition set_remaining :: "OrderPointer \<Rightarrow> Quantity \<Rightarrow> OrderBook \<Rightarrow> OrderBook" where
  "set_remaining h r s =
     s\<lparr>orderPool := (orderPool s)\<lparr>pool := (pool (orderPool s))
          (h := (pool (orderPool s) h)\<lparr>remainingQuantity := r\<rparr>)\<rparr>\<rparr>"

definition drop_handle :: "OrderPointer \<Rightarrow> PriceMap \<Rightarrow> PriceMap" where
  "drop_handle h m = filter (\<lambda>(k, l). l \<noteq> []) (map (\<lambda>(k, l). (k, remove1 h l)) m)"

definition unlink :: "OrderPointer \<Rightarrow> OrderBook \<Rightarrow> OrderBook" where
  "unlink h s =
     s\<lparr>bids := drop_handle h (bids s), asks := drop_handle h (asks s),
       orders := (orders s)(orderId (deref s h) := None),
       orderPool := (orderPool s)\<lparr>free_indices := free_indices (orderPool s) @ [h]\<rparr>\<rparr>"

text \<open>What \<open>AddOrder\<close> does to the map of the order's side: \<open>m[k].push_back(h)\<close>.\<close>

definition link_at :: "(Price \<Rightarrow> Price \<Rightarrow> bool) \<Rightarrow> Price \<Rightarrow> OrderPointer \<Rightarrow> PriceMap \<Rightarrow> PriceMap" where
  "link_at cmp k h m =
     (let m' = map_subscript cmp k m in map_assign k (push_back h (level_at k m')) m')"

text \<open>No FillAndKill order is linked in one side.\<close>

definition no_fak_in :: "OrderBook \<Rightarrow> PriceMap \<Rightarrow> bool" where
  "no_fak_in s m \<longleftrightarrow> (\<forall>h \<in> set (handles m). orderType (deref s h) \<noteq> FillAndKill)"

text \<open>The invariant of the book between two public operations.\<close>

definition book_inv :: "OrderBook \<Rightarrow> bool" where
  "book_inv s \<longleftrightarrow> wf_book s \<and> no_fak s \<and> uncrossed s \<and> zero_only_initial s"

text \<open>
  The invariant of the two loops of \<open>MatchOrders\<close>, started at book \<open>s0\<close>: the book is
  well formed but may be crossed, and the order that was just linked may be FillAndKill.
\<close>

definition loop_inv :: "OrderBook \<Rightarrow> OrderBook \<Rightarrow> bool" where
  "loop_inv s0 s \<longleftrightarrow>
     wf_book s \<and> fak_first s (bids s) \<and> fak_first s (asks s) \<and> zero_only_initial s \<and>
     trades_ok (trades s) \<and> evolves s0 s"

text \<open>The book in which \<open>AddOrder\<close> calls \<open>MatchOrders\<close>: the new order is acquired, linked and indexed.\<close>

definition linked :: "OrderType \<Rightarrow> OrderId \<Rightarrow> Side \<Rightarrow> Price \<Rightarrow> Quantity \<Rightarrow> OrderBook \<Rightarrow> OrderBook" where
  "linked ty oid sd pr q s =
     (let h = last (free_indices (orderPool s));
          s1 = s\<lparr>orderPool := (orderPool s)\<lparr>free_indices := butlast (free_indices (orderPool s)),
                                            pool := (pool (orderPool s))(h := Order_new ty oid sd pr q)\<rparr>,
                 orders := (orders s)(oid \<mapsto> h)\<rparr>
      in if sd = Buy then s1\<lparr>bids := link_at (>) pr h (bids s)\<rparr>
         else s1\<lparr>asks := link_at (<) pr h (asks s)\<rparr>)"

text \<open>
  An order linked before and after a step is the same order, with a remaining quantity
  that did not grow.
\<close>

definition ages :: "OrderBook \<Rightarrow> OrderBook \<Rightarrow> bool" where
  "ages s s' \<longleftrightarrow>
     (\<forall>h \<in> set (live s) \<inter> set (live s').
        \<exists>r. r \<le> remainingQuantity (deref s h) \<and> deref s' h = (deref s h)\<lparr>remainingQuantity := r\<rparr>)"


definition book_crossing :: OrderBook where
  \<comment> \<open>the book in which the add of scenario S3 enters \<open>MatchOrders\<close>\<close>
  "book_crossing = linked GoodTillCancel 3 Sell 100 7 (book_bid2 5 5)"


section \<open>Evaluation\<close>

lemmas book_defs =
  AddOrder_def MatchOrder_def MatchOrders_def match_body_def CanMatch_def CancelOrder_def
  sweep_def retire_bid_def retire_ask_def acquire_def release_def Fill_at_def Fill_def
  IsFilled_def Order_new_def deref_def push_back_def remove_ol_def front_def pop_front_def
  empty_ol_def size_ol_def map_at_def level_at_def Let_def

lemma butlast_upt_Suc: "butlast [0..<Suc n] = [0..<n]"
  by simp

lemma butlast_upt_1000000: "butlast [0..<1000000] = [0..<999999]"
  using butlast_upt_Suc [of 999999] by simp

lemma butlast_upt_999999: "butlast [0..<999999] = [0..<999998]"
  using butlast_upt_Suc [of 999998] by simp

lemma add_bid1: "AddOrder GoodTillCancel 1 Buy 100 q OrderBook_new = Some (Inr ([], book_bid1 q))"
  by (simp add: book_defs match_loop.simps butlast_upt_1000000 book_bid1_def OrderBook_new_def
      ObjectPool_new_def)

lemma reachable_book_bid1: "reachable (book_bid1 q)"
  using reachable.step [OF reachable.init, of "Add GoodTillCancel 1 Buy 100 q"] add_bid1
  by simp


lemma add_bid2:
  "AddOrder GoodTillCancel 2 Buy 100 q2 (book_bid1 q1) = Some (Inr ([], book_bid2 q1 q2))"
  by (simp add: book_defs match_loop.simps butlast_upt_999999 book_bid1_def book_bid2_def)


lemma add_S5:
  "AddOrder FillAndKill 2 Sell 100 10 (book_bid1 4) =
     Some (Inr ([Trade (TradeInfo 1 100 4) (TradeInfo 2 100 4)], book_S5))"
  by (simp add: book_defs match_loop.simps match_level.simps butlast_upt_999999 book_bid1_def
      book_S5_def)


lemma add_bid_ask:
  "AddOrder GoodTillCancel 2 Sell 101 5 (book_bid1 10) = Some (Inr ([], book_bid_ask))"
  by (simp add: book_defs match_loop.simps match_level.simps butlast_upt_999999 book_bid1_def
      book_bid_ask_def)

lemma add_partial:
  "AddOrder GoodTillCancel 2 Sell 99 7 (book_bid1 10) =
     Some (Inr ([Trade (TradeInfo 1 100 7) (TradeInfo 2 99 7)], book_partial))"
  by (simp add: book_defs match_loop.simps match_level.simps butlast_upt_999999 book_bid1_def
      book_partial_def)

lemma reachable_book_bid2: "reachable (book_bid2 q1 q2)"
  using reachable.step [OF reachable_book_bid1, of "Add GoodTillCancel 2 Buy 100 q2"] add_bid2
  by simp

lemma reachable_book_bid_ask: "reachable book_bid_ask"
  using reachable.step [OF reachable_book_bid1, of "Add GoodTillCancel 2 Sell 101 5"] add_bid_ask
  by simp

section \<open>Properties of the book\<close>

subsection \<open>Lists of levels\<close>

lemma handles_Nil [simp]: "handles [] = []"
  by (simp add: handles_def)

lemma handles_Cons [simp]: "handles ((k, l) # m) = l @ handles m"
  by (simp add: handles_def)

lemma in_handles_iff: "h \<in> set (handles m) \<longleftrightarrow> (\<exists>k l. (k, l) \<in> set m \<and> h \<in> set l)"
  by (force simp: handles_def)

lemma drop_handle_Nil [simp]: "drop_handle h [] = []"
  by (simp add: drop_handle_def)

lemma drop_handle_Cons:
  "drop_handle h ((k, l) # m) =
     (if remove1 h l = [] then drop_handle h m else (k, remove1 h l) # drop_handle h m)"
  by (simp add: drop_handle_def)

lemma drop_handle_id:
  "h \<notin> set (handles m) \<Longrightarrow> \<forall>(k, l) \<in> set m. l \<noteq> [] \<Longrightarrow> drop_handle h m = m"
  by (induction m) (auto simp: drop_handle_Cons remove1_idem)

lemma remove1_filter: "distinct l \<Longrightarrow> remove1 h l = filter (\<lambda>x. x \<noteq> h) l"
proof -
  assume "distinct l"
  then have "remove1 h l = filter (\<lambda>x. h \<noteq> x) l"
    by (simp add: distinct_remove1_removeAll removeAll_filter_not_eq)
  also have "\<dots> = filter (\<lambda>x. x \<noteq> h) l"
    by (rule filter_cong) auto
  finally show ?thesis .
qed

lemma drop_handle_entry:
  "(k, l') \<in> set (drop_handle h m) \<Longrightarrow> l' \<noteq> [] \<and> (\<exists>l. (k, l) \<in> set m \<and> l' = remove1 h l)"
  by (auto simp: drop_handle_def)

lemma handles_drop_handle:
  "distinct (handles m) \<Longrightarrow> handles (drop_handle h m) = filter (\<lambda>x. x \<noteq> h) (handles m)"
proof (induction m)
  case Nil
  then show ?case by simp
next
  case (Cons e m)
  obtain k l where e: "e = (k, l)" by (cases e)
  from Cons.prems e have d: "distinct l" "distinct (handles m)" by auto
  have "remove1 h l = filter (\<lambda>x. x \<noteq> h) l"
    using d(1) by (rule remove1_filter)
  then show ?case
    using Cons.IH d(2) e by (simp add: drop_handle_Cons)
qed

lemma sorted_drop_handle:
  "sorted_wrt cmp (map fst m) \<Longrightarrow> sorted_wrt cmp (map fst (drop_handle h m))"
  by (induction m) (force simp: drop_handle_Cons dest!: drop_handle_entry)+

subsection \<open>Steps on books\<close>

lemma set_remaining_simps [simp]:
  "bids (set_remaining h r s) = bids s"
  "asks (set_remaining h r s) = asks s"
  "orders (set_remaining h r s) = orders s"
  "trades (set_remaining h r s) = trades s"
  "free_indices (orderPool (set_remaining h r s)) = free_indices (orderPool s)"
  "pool_size (orderPool (set_remaining h r s)) = pool_size (orderPool s)"
  "live (set_remaining h r s) = live s"
  "orderType (deref (set_remaining h r s) h') = orderType (deref s h')"
  "orderId (deref (set_remaining h r s) h') = orderId (deref s h')"
  "side (deref (set_remaining h r s) h') = side (deref s h')"
  "price (deref (set_remaining h r s) h') = price (deref s h')"
  "initialQuantity (deref (set_remaining h r s) h') = initialQuantity (deref s h')"
  "remainingQuantity (deref (set_remaining h r s) h') =
     (if h' = h then r else remainingQuantity (deref s h'))"
  by (simp_all add: set_remaining_def live_def deref_def)

lemma deref_set_remaining:
  "deref (set_remaining h r s) h' =
     (if h' = h then (deref s h)\<lparr>remainingQuantity := r\<rparr> else deref s h')"
  by (simp add: set_remaining_def deref_def)

lemma unlink_simps [simp]:
  "bids (unlink h s) = drop_handle h (bids s)"
  "asks (unlink h s) = drop_handle h (asks s)"
  "orders (unlink h s) = (orders s)(orderId (deref s h) := None)"
  "trades (unlink h s) = trades s"
  "free_indices (orderPool (unlink h s)) = free_indices (orderPool s) @ [h]"
  "pool_size (orderPool (unlink h s)) = pool_size (orderPool s)"
  "deref (unlink h s) h' = deref s h'"
  by (simp_all add: unlink_def deref_def)

lemma trades_update_simps [simp]:
  "live (s\<lparr>trades := ts\<rparr>) = live s"
  "deref (s\<lparr>trades := ts\<rparr>) h = deref s h"
  by (simp_all add: live_def deref_def)

lemma wf_set_remaining [simp]: "wf_book (set_remaining h r s) = wf_book s"
  by (simp add: wf_book_def side_ok_def)

lemma wf_trades [simp]: "wf_book (s\<lparr>trades := ts\<rparr>) = wf_book s"
  by (simp add: wf_book_def side_ok_def)

lemma live_unlink:
  "distinct (live s) \<Longrightarrow> live (unlink h s) = filter (\<lambda>x. x \<noteq> h) (live s)"
  by (simp add: live_def handles_drop_handle)

lemma side_ok_drop_handle:
  assumes "side_ok cmp sd s m" and "\<And>h'. deref s' h' = deref s h'"
  shows "side_ok cmp sd s' (drop_handle h m)"
  unfolding side_ok_def
proof (intro conjI ballI)
  show "sorted_wrt cmp (map fst (drop_handle h m))"
    using assms(1) by (simp add: side_ok_def sorted_drop_handle)
next
  fix e assume e: "e \<in> set (drop_handle h m)"
  obtain k l' where kl: "e = (k, l')" by (cases e)
  from e kl obtain l where l: "l' \<noteq> []" "(k, l) \<in> set m" "l' = remove1 h l"
    using drop_handle_entry by blast
  have "\<forall>h'\<in>set l'. side (deref s' h') = sd \<and> price (deref s' h') = k"
  proof
    fix h' assume "h' \<in> set l'"
    then have "h' \<in> set l" using l(3) by (meson notin_set_remove1)
    then show "side (deref s' h') = sd \<and> price (deref s' h') = k"
      using assms l(2) by (auto simp: side_ok_def)
  qed
  then show "case e of (k, l) \<Rightarrow> l \<noteq> [] \<and> (\<forall>h\<in>set l. side (deref s' h) = sd \<and> price (deref s' h) = k)"
    using kl l(1) by simp
qed

lemma wf_unlink:
  assumes w: "wf_book s" and h: "h \<in> set (live s)"
  shows "wf_book (unlink h s)"
proof -
  let ?s = "unlink h s"
  from w have d: "distinct (live s)" and df: "distinct (free_indices (orderPool s))"
    and dj: "set (live s) \<inter> set (free_indices (orderPool s)) = {}"
    and bd: "\<forall>h \<in> set (live s) \<union> set (free_indices (orderPool s)). h < pool_size (orderPool s)"
    and ix: "\<forall>h \<in> set (live s). orders s (orderId (deref s h)) = Some h"
    and xi: "\<forall>oid h. orders s oid = Some h \<longrightarrow> h \<in> set (live s) \<and> orderId (deref s h) = oid"
    and sb: "side_ok (>) Buy s (bids s)" and sa: "side_ok (<) Sell s (asks s)"
    by (simp_all add: wf_book_def)
  have lv: "live ?s = filter (\<lambda>x. x \<noteq> h) (live s)"
    using d by (rule live_unlink)
  have 1: "side_ok (>) Buy ?s (bids ?s)"
    using side_ok_drop_handle [OF sb, of ?s h] by simp
  have 2: "side_ok (<) Sell ?s (asks ?s)"
    using side_ok_drop_handle [OF sa, of ?s h] by simp
  have 3: "distinct (live ?s)"
    using d lv by simp
  have 4: "distinct (free_indices (orderPool ?s))"
    using df dj h by auto
  have 5: "set (live ?s) \<inter> set (free_indices (orderPool ?s)) = {}"
    using dj lv by auto
  have 6: "\<forall>h' \<in> set (live ?s) \<union> set (free_indices (orderPool ?s)). h' < pool_size (orderPool ?s)"
    using bd lv h by auto
  have 7: "\<forall>h' \<in> set (live ?s). orders ?s (orderId (deref ?s h')) = Some h'"
  proof
    fix h' assume "h' \<in> set (live ?s)"
    then have a: "h' \<in> set (live s)" "h' \<noteq> h" using lv by auto
    then have "orders s (orderId (deref s h')) = Some h'" using ix by blast
    moreover have "orders s (orderId (deref s h)) = Some h" using ix h by blast
    ultimately show "orders ?s (orderId (deref ?s h')) = Some h'"
      using a(2) by auto
  qed
  have 8: "\<forall>oid h'. orders ?s oid = Some h' \<longrightarrow> h' \<in> set (live ?s) \<and> orderId (deref ?s h') = oid"
  proof (intro allI impI)
    fix oid h' assume "orders ?s oid = Some h'"
    then have a: "oid \<noteq> orderId (deref s h)" "orders s oid = Some h'"
      by (auto split: if_splits)
    then have "h' \<in> set (live s)" "orderId (deref s h') = oid" using xi by blast+
    then show "h' \<in> set (live ?s) \<and> orderId (deref ?s h') = oid"
      using a(1) lv by auto
  qed
  show ?thesis
    unfolding wf_book_def using 1 2 3 4 5 6 7 8 by blast
qed

lemma sorted_wrt_distinct:
  "sorted_wrt cmp xs \<Longrightarrow> (\<And>x. \<not> cmp x x) \<Longrightarrow> distinct xs"
  by (induction xs) auto

lemma side_ok_distinct_keys:
  "side_ok cmp sd s m \<Longrightarrow> cmp = (<) \<or> cmp = (>) \<Longrightarrow> distinct (map fst m)"
  by (auto simp: side_ok_def intro: sorted_wrt_distinct)

lemma cancel_level:
  assumes "distinct (map fst m)" "map_of m k = Some l" "h \<in> set l" "distinct (handles m)"
    "\<forall>(k, l) \<in> set m. l \<noteq> []"
  shows "(if remove1 h l = [] then map_erase k (map_assign k (remove1 h l) m)
          else map_assign k (remove1 h l) m) = drop_handle h m"
  using assms
proof (induction m)
  case Nil
  then show ?case by simp
next
  case (Cons e m)
  obtain k' l0 where e: "e = (k', l0)" by (cases e)
  show ?case
  proof (cases "k = k'")
    case True
    with Cons.prems e have "l0 = l" "h \<notin> set (handles m)" "\<forall>(k, l) \<in> set m. l \<noteq> []"
      by auto
    then show ?thesis
      using True e by (simp add: drop_handle_Cons drop_handle_id)
  next
    case False
    with Cons.prems e have m: "map_of m k = Some l" by simp
    then have "(k, l) \<in> set m" by (rule map_of_SomeD)
    then have "h \<in> set (handles m)" using Cons.prems(3) in_handles_iff by blast
    with Cons.prems e have "h \<notin> set l0" "l0 \<noteq> []" by auto
    moreover have "(if remove1 h l = [] then map_erase k (map_assign k (remove1 h l) m)
          else map_assign k (remove1 h l) m) = drop_handle h m"
      using Cons.IH Cons.prems e m by auto
    ultimately show ?thesis
      using False e by (auto simp: drop_handle_Cons remove1_idem split: if_splits)
  qed
qed

lemma wf_noempty:
  "wf_book s \<Longrightarrow> (\<forall>(k, l) \<in> set (bids s). l \<noteq> []) \<and> (\<forall>(k, l) \<in> set (asks s). l \<noteq> [])"
  by (auto simp: wf_book_def side_ok_def)

lemma wf_distinct_keys:
  "wf_book s \<Longrightarrow> distinct (map fst (bids s)) \<and> distinct (map fst (asks s))"
  by (auto simp: wf_book_def dest: side_ok_distinct_keys)

lemma wf_distinct_handles:
  "wf_book s \<Longrightarrow> distinct (handles (bids s)) \<and> distinct (handles (asks s)) \<and>
     set (handles (bids s)) \<inter> set (handles (asks s)) = {}"
  by (auto simp: wf_book_def live_def)

lemma wf_side_of:
  assumes "wf_book s" "h \<in> set (live s)"
  shows "if side (deref s h) = Sell
         then h \<in> set (handles (asks s)) \<and> h \<notin> set (handles (bids s)) \<and>
              (\<exists>l. map_of (asks s) (price (deref s h)) = Some l \<and> h \<in> set l)
         else h \<in> set (handles (bids s)) \<and> h \<notin> set (handles (asks s)) \<and>
              (\<exists>l. map_of (bids s) (price (deref s h)) = Some l \<and> h \<in> set l)"
proof -
  from assms(1) have sb: "side_ok (>) Buy s (bids s)" and sa: "side_ok (<) Sell s (asks s)"
    by (simp_all add: wf_book_def)
  note dk = wf_distinct_keys [OF assms(1)] and dh = wf_distinct_handles [OF assms(1)]
  from assms(2) consider "h \<in> set (handles (bids s))" | "h \<in> set (handles (asks s))"
    by (auto simp: live_def)
  then show ?thesis
  proof cases
    case 1
    then obtain k l where kl: "(k, l) \<in> set (bids s)" "h \<in> set l"
      using in_handles_iff by blast
    with sb have "side (deref s h) = Buy" "price (deref s h) = k"
      by (auto simp: side_ok_def)
    moreover have "map_of (bids s) k = Some l"
      using dk kl(1) by simp
    ultimately show ?thesis using 1 dh kl(2) by auto
  next
    case 2
    then obtain k l where kl: "(k, l) \<in> set (asks s)" "h \<in> set l"
      using in_handles_iff by blast
    with sa have "side (deref s h) = Sell" "price (deref s h) = k"
      by (auto simp: side_ok_def)
    moreover have "map_of (asks s) k = Some l"
      using dk kl(1) by simp
    ultimately show ?thesis using 2 dh kl(2) by auto
  qed
qed

lemma CancelOrder_unlink:
  assumes w: "wf_book s" and o: "orders s oid = Some h"
  shows "CancelOrder oid s = Inr (unlink h s)"
proof -
  from w o have h: "h \<in> set (live s)" "orderId (deref s h) = oid" "h < pool_size (orderPool s)"
    by (auto simp: wf_book_def)
  note ne = wf_noempty [OF w] and dk = wf_distinct_keys [OF w] and dh = wf_distinct_handles [OF w]
  note so = wf_side_of [OF w h(1)]
  show ?thesis
  proof (cases "side (deref s h) = Sell")
    case True
    with so obtain l where l: "map_of (asks s) (price (deref s h)) = Some l" "h \<in> set l"
      "h \<notin> set (handles (bids s))" by auto
    have a: "(if remove1 h l = [] then map_erase (price (deref s h)) (map_assign (price (deref s h)) (remove1 h l) (asks s))
          else map_assign (price (deref s h)) (remove1 h l) (asks s)) = drop_handle h (asks s)"
      using cancel_level [OF _ l(1) l(2)] dk dh ne by blast
    have b: "drop_handle h (bids s) = bids s"
      using drop_handle_id l(3) ne by blast
    show ?thesis
      using True o h l(1,2) a b
      by (simp add: CancelOrder_def Let_def map_at_def remove_ol_def empty_ol_def release_def
          unlink_def deref_def split: if_splits)
  next
    case False
    with so obtain l where l: "map_of (bids s) (price (deref s h)) = Some l" "h \<in> set l"
      "h \<notin> set (handles (asks s))" by auto
    have a: "(if remove1 h l = [] then map_erase (price (deref s h)) (map_assign (price (deref s h)) (remove1 h l) (bids s))
          else map_assign (price (deref s h)) (remove1 h l) (bids s)) = drop_handle h (bids s)"
      using cancel_level [OF _ l(1) l(2)] dk dh ne by blast
    have b: "drop_handle h (asks s) = asks s"
      using drop_handle_id l(3) ne by blast
    show ?thesis
      using False o h l(1,2) a b
      by (simp add: CancelOrder_def Let_def map_at_def remove_ol_def empty_ol_def release_def
          unlink_def deref_def split: if_splits)
  qed
qed

lemma word_sub_min_l: "(rb :: Quantity) - min rb ra = 0 \<longleftrightarrow> rb \<le> ra"
  by (auto simp: min_def)

lemma word_sub_min_r: "(ra :: Quantity) - min rb ra = 0 \<longleftrightarrow> ra \<le> rb"
  by (auto simp: min_def)

lemma wf_heads:
  assumes w: "wf_book s" and B: "bids s = (bp, b # bl) # br" and A: "asks s = (ap, a # al) # ar"
  shows "b \<noteq> a" "b < pool_size (orderPool s)" "a < pool_size (orderPool s)"
    "b \<in> set (live s)" "a \<in> set (live s)"
    "drop_handle b (bids s) = (if bl = [] then br else (bp, bl) # br)"
    "drop_handle a (asks s) = (if al = [] then ar else (ap, al) # ar)"
    "drop_handle b (asks s) = asks s"
    "drop_handle a (bids s) = bids s"
    "(bl = [] \<longrightarrow> drop_handle a br = br) \<and>
     (bl \<noteq> [] \<longrightarrow> drop_handle a ((bp, bl) # br) = (bp, bl) # br)"
    "price (deref s b) = bp" "price (deref s a) = ap"
proof -
  note ne = wf_noempty [OF w] and dh = wf_distinct_handles [OF w]
  show lb: "b \<in> set (live s)" and la: "a \<in> set (live s)"
    using A B by (simp_all add: live_def)
  show "b \<noteq> a" using dh A B by auto
  show "b < pool_size (orderPool s)" "a < pool_size (orderPool s)"
    using w lb la by (auto simp: wf_book_def)
  show "drop_handle b (bids s) = (if bl = [] then br else (bp, bl) # br)"
    using dh ne B by (simp add: drop_handle_Cons drop_handle_id)
  show "drop_handle a (asks s) = (if al = [] then ar else (ap, al) # ar)"
    using dh ne A by (simp add: drop_handle_Cons drop_handle_id)
  have "b \<notin> set (handles (asks s))" using dh B by auto
  then show "drop_handle b (asks s) = asks s"
    using ne drop_handle_id by blast
  have na: "a \<notin> set (handles (bids s))" using dh A by auto
  then show "drop_handle a (bids s) = bids s"
    using ne drop_handle_id by blast
  show "(bl = [] \<longrightarrow> drop_handle a br = br) \<and>
     (bl \<noteq> [] \<longrightarrow> drop_handle a ((bp, bl) # br) = (bp, bl) # br)"
    using na ne B by (auto intro!: drop_handle_id)
  show "price (deref s b) = bp" "price (deref s a) = ap"
    using w A B by (auto simp: wf_book_def side_ok_def)
qed

lemma match_body_unlink:
  assumes w: "wf_book s" and B: "bids s = (bp, b # bl) # br" and A: "asks s = (ap, a # al) # ar"
  defines "rb \<equiv> remainingQuantity (deref s b)" and "ra \<equiv> remainingQuantity (deref s a)"
  defines "s1 \<equiv> set_remaining a (ra - min rb ra) (set_remaining b (rb - min rb ra) s)"
  defines "s2 \<equiv> (if rb \<le> ra then unlink b s1 else s1)"
  defines "s3 \<equiv> (if ra \<le> rb then unlink a s2 else s2)"
  shows "match_body bp ap s =
    Inr ((rb \<le> ra \<and> bl = []) \<or> (ra \<le> rb \<and> al = []),
         s3\<lparr>trades := trades s @ [Trade (TradeInfo (orderId (deref s b)) bp (min rb ra))
                                          (TradeInfo (orderId (deref s a)) ap (min rb ra))]\<rparr>)"
proof -
  note hs = wf_heads [OF w B A]
  have rq: "remainingQuantity (pool (orderPool s) b) = rb" "remainingQuantity (pool (orderPool s) a) = ra"
    by (simp_all add: rb_def ra_def deref_def)
  note defs = match_body_def front_def level_at_def Fill_at_def Fill_def deref_def IsFilled_def
       retire_bid_def retire_ask_def release_def pop_front_def empty_ol_def Let_def set_remaining_def
       unlink_def s1_def s2_def s3_def
  consider "rb < ra" | "ra < rb" | "rb = ra" by fastforce
  then show ?thesis
  proof cases
    case 1
    then have c: "min rb ra = rb" "rb \<le> ra" "\<not> ra \<le> rb" "ra - rb \<noteq> 0" "\<not> ra < rb"
      by auto
    show ?thesis using hs A B rq c by (simp add: defs)
  next
    case 2
    then have c: "min rb ra = ra" "ra \<le> rb" "\<not> rb \<le> ra" "rb - ra \<noteq> 0" "\<not> rb < ra"
      by auto
    show ?thesis using hs A B rq c by (simp add: defs)
  next
    case 3
    then have c: "min rb ra = rb" "rb \<le> ra" "ra \<le> rb"
      by auto
    show ?thesis using hs A B rq c 3 by (simp add: defs)
  qed
qed

lemma last_remove1: "x \<in> set (remove1 h l) \<Longrightarrow> last l = x \<Longrightarrow> last (remove1 h l) = x"
proof (induction l)
  case Nil
  then show ?case by simp
next
  case (Cons y ys)
  show ?case
  proof (cases "y = h")
    case True
    then show ?thesis using Cons.prems by auto
  next
    case False
    show ?thesis
    proof (cases "remove1 h ys = []")
      case True
      then have "ys = [] \<or> ys = [h]"
        by (cases ys) (auto split: if_splits)
      then show ?thesis using Cons.prems False True by auto
    next
      case ne: False
      then have "ys \<noteq> []" by auto
      moreover from Cons.prems False ne have "x \<in> set (remove1 h ys)"
        by (auto split: if_splits)
      ultimately show ?thesis using Cons False ne by auto
    qed
  qed
qed

lemma tails_drop_handle:
  assumes "\<forall>(k, l) \<in> set m. x \<in> set l \<longrightarrow> last l = x"
  shows "\<forall>(k, l) \<in> set (drop_handle h m). x \<in> set l \<longrightarrow> last l = x"
proof (intro ballI)
  fix e assume e: "e \<in> set (drop_handle h m)"
  obtain k l' where kl: "e = (k, l')" by (cases e)
  with e obtain l where l: "(k, l) \<in> set m" "l' = remove1 h l"
    using drop_handle_entry by blast
  have "x \<in> set l' \<longrightarrow> last l' = x"
  proof
    assume x: "x \<in> set l'"
    then have "x \<in> set l" using l(2) by (meson notin_set_remove1)
    then have "last l = x" using assms l(1) by auto
    then show "last l' = x" using x unfolding l(2) by (intro last_remove1)
  qed
  then show "case e of (k, l) \<Rightarrow> x \<in> set l \<longrightarrow> last l = x" using kl by simp
qed

lemma tails_unlink: "tails s \<subseteq> tails (unlink h s)"
proof
  fix x assume "x \<in> tails s"
  then have o: "\<forall>(k, l) \<in> set (bids s). x \<in> set l \<longrightarrow> last l = x"
    "\<forall>(k, l) \<in> set (asks s). x \<in> set l \<longrightarrow> last l = x"
    by (auto simp: tails_def)
  have "\<forall>(k, l) \<in> set (drop_handle h (bids s)). x \<in> set l \<longrightarrow> last l = x"
    using o(1) by (rule tails_drop_handle)
  moreover have "\<forall>(k, l) \<in> set (drop_handle h (asks s)). x \<in> set l \<longrightarrow> last l = x"
    using o(2) by (rule tails_drop_handle)
  ultimately show "x \<in> tails (unlink h s)"
    by (auto simp: tails_def)
qed

lemma tails_set_remaining [simp]: "tails (set_remaining h r s) = tails s"
  by (simp add: tails_def)

lemma tails_trades [simp]: "tails (s\<lparr>trades := ts\<rparr>) = tails s"
  by (simp add: tails_def)

lemma match_body_summary:
  assumes w: "wf_book s" and B: "bids s = (bp, b # bl) # br" and A: "asks s = (ap, a # al) # ar"
  defines "rb \<equiv> remainingQuantity (deref s b)" and "ra \<equiv> remainingQuantity (deref s a)"
  shows "\<exists>s'. match_body bp ap s = Inr ((rb \<le> ra \<and> bl = []) \<or> (ra \<le> rb \<and> al = []), s') \<and>
     wf_book s' \<and>
     bids s' = (if rb \<le> ra then (if bl = [] then br else (bp, bl) # br) else bids s) \<and>
     asks s' = (if ra \<le> rb then (if al = [] then ar else (ap, al) # ar) else asks s) \<and>
     live s' = filter (\<lambda>x. (rb \<le> ra \<longrightarrow> x \<noteq> b) \<and> (ra \<le> rb \<longrightarrow> x \<noteq> a)) (live s) \<and>
     trades s' = trades s @ [Trade (TradeInfo (orderId (deref s b)) bp (min rb ra))
                                   (TradeInfo (orderId (deref s a)) ap (min rb ra))] \<and>
     pool_size (orderPool s') = pool_size (orderPool s) \<and>
     (\<forall>h. deref s' h = (if h = a then (deref s a)\<lparr>remainingQuantity := ra - min rb ra\<rparr>
                        else if h = b then (deref s b)\<lparr>remainingQuantity := rb - min rb ra\<rparr>
                        else deref s h)) \<and>
     tails s \<subseteq> tails s'"
proof -
  define s1 where "s1 = set_remaining a (ra - min rb ra) (set_remaining b (rb - min rb ra) s)"
  define s2 where "s2 = (if rb \<le> ra then unlink b s1 else s1)"
  define s3 where "s3 = (if ra \<le> rb then unlink a s2 else s2)"
  define s' where "s' = s3\<lparr>trades := trades s @ [Trade (TradeInfo (orderId (deref s b)) bp (min rb ra))
                                          (TradeInfo (orderId (deref s a)) ap (min rb ra))]\<rparr>"
  note hs = wf_heads [OF w B A]
  have m: "match_body bp ap s = Inr ((rb \<le> ra \<and> bl = []) \<or> (ra \<le> rb \<and> al = []), s')"
    using match_body_unlink [OF w B A] by (simp add: s'_def s3_def s2_def s1_def rb_def ra_def)
  have w1: "wf_book s1" "live s1 = live s" using w by (simp_all add: s1_def)
  have d1: "distinct (live s1)" using w1 by (simp add: wf_book_def)
  have w2: "wf_book s2" using w1 hs(4) by (simp add: s2_def wf_unlink)
  have l2: "live s2 = (if rb \<le> ra then filter (\<lambda>x. x \<noteq> b) (live s) else live s)"
    using d1 w1(2) by (simp add: s2_def live_unlink)
  have d2: "distinct (live s2)" using w2 by (simp add: wf_book_def)
  have a2: "a \<in> set (live s2)" using l2 hs(1,5) by auto
  have w3: "wf_book s3" using w2 a2 by (simp add: s3_def wf_unlink)
  have l3: "live s3 = (if ra \<le> rb then filter (\<lambda>x. x \<noteq> a) (live s2) else live s2)"
    using d2 by (simp add: s3_def live_unlink)
  have "wf_book s'" using w3 by (simp add: s'_def)
  moreover have "live s' = filter (\<lambda>x. (rb \<le> ra \<longrightarrow> x \<noteq> b) \<and> (ra \<le> rb \<longrightarrow> x \<noteq> a)) (live s)"
    using l2 l3 by (auto simp: s'_def intro: filter_cong)
  moreover have "bids s' = (if rb \<le> ra then (if bl = [] then br else (bp, bl) # br) else bids s)"
    using hs by (simp add: s'_def s3_def s2_def s1_def)
  moreover have "asks s' = (if ra \<le> rb then (if al = [] then ar else (ap, al) # ar) else asks s)"
    using hs by (simp add: s'_def s3_def s2_def s1_def)
  moreover have "trades s' = trades s @ [Trade (TradeInfo (orderId (deref s b)) bp (min rb ra))
                                   (TradeInfo (orderId (deref s a)) ap (min rb ra))]"
    by (simp add: s'_def)
  moreover have "pool_size (orderPool s') = pool_size (orderPool s)"
    by (simp add: s'_def s3_def s2_def s1_def)
  moreover have "\<forall>h. deref s' h = (if h = a then (deref s a)\<lparr>remainingQuantity := ra - min rb ra\<rparr>
                        else if h = b then (deref s b)\<lparr>remainingQuantity := rb - min rb ra\<rparr>
                        else deref s h)"
    using hs(1) by (simp add: s'_def s3_def s2_def s1_def deref_set_remaining)
  moreover have "tails s \<subseteq> tails s'"
  proof -
    have "tails s \<subseteq> tails s1" by (simp add: s1_def)
    also have "\<dots> \<subseteq> tails s2" using tails_unlink by (simp add: s2_def)
    also have "\<dots> \<subseteq> tails s3" using tails_unlink by (simp add: s3_def)
    finally show ?thesis by (simp add: s'_def)
  qed
  ultimately show ?thesis using m by blast
qed

lemma evolves_refl: "evolves s s"
  by (auto simp: evolves_def intro: exI [of _ "remainingQuantity (deref s h)" for h])

lemma evolves_trans:
  assumes "evolves s0 s1" "evolves s1 s2"
  shows "evolves s0 s2"
  unfolding evolves_def
proof (intro conjI allI)
  show "set (live s2) \<subseteq> set (live s0)"
    using assms by (auto simp: evolves_def)
  show "pool_size (orderPool s2) = pool_size (orderPool s0)"
    using assms by (simp add: evolves_def)
  show "tails s0 \<subseteq> tails s2"
    using assms by (auto simp: evolves_def)
  fix h
  from assms(1) obtain r1 where r1: "r1 \<le> remainingQuantity (deref s0 h)"
    "deref s1 h = (deref s0 h)\<lparr>remainingQuantity := r1\<rparr>"
    unfolding evolves_def by blast
  from assms(2) obtain r2 where r2: "r2 \<le> remainingQuantity (deref s1 h)"
    "deref s2 h = (deref s1 h)\<lparr>remainingQuantity := r2\<rparr>"
    unfolding evolves_def by blast
  have "r2 \<le> remainingQuantity (deref s0 h)" using r1 r2 by simp
  moreover have "deref s2 h = (deref s0 h)\<lparr>remainingQuantity := r2\<rparr>" using r1 r2 by simp
  ultimately show "\<exists>r\<le>remainingQuantity (deref s0 h). deref s2 h = (deref s0 h)\<lparr>remainingQuantity := r\<rparr>"
    by blast
qed

lemma evolves_types:
  "evolves s0 s \<Longrightarrow> orderType (deref s h) = orderType (deref s0 h) \<and>
     orderId (deref s h) = orderId (deref s0 h) \<and> side (deref s h) = side (deref s0 h) \<and>
     price (deref s h) = price (deref s0 h) \<and>
     initialQuantity (deref s h) = initialQuantity (deref s0 h) \<and>
     remainingQuantity (deref s h) \<le> remainingQuantity (deref s0 h)"
proof -
  assume "evolves s0 s"
  then obtain r where "r \<le> remainingQuantity (deref s0 h)"
    "deref s h = (deref s0 h)\<lparr>remainingQuantity := r\<rparr>"
    unfolding evolves_def by blast
  then show ?thesis by simp
qed

lemma fak_first_tail:
  assumes "fak_first s ((k, b # l) # r)" "distinct (handles ((k, b # l) # r))"
    "h \<in> set l \<union> set (handles r)"
  shows "orderType (deref s h) \<noteq> FillAndKill"
proof
  assume "orderType (deref s h) = FillAndKill"
  moreover have "h \<in> set (handles ((k, b # l) # r))" using assms(3) by auto
  ultimately obtain k' l' r' where "(k, b # l) # r = (k', h # l') # r'"
    using assms(1) unfolding fak_first_def by blast
  then have "h = b" by simp
  with assms(2,3) show False by auto
qed

lemma fak_first_vacuous:
  "\<forall>h \<in> set (handles m). orderType (deref s h) \<noteq> FillAndKill \<Longrightarrow> fak_first s m"
  by (simp add: fak_first_def)

lemma fak_first_types:
  "fak_first s m \<Longrightarrow> (\<And>h. orderType (deref s' h) = orderType (deref s h)) \<Longrightarrow> fak_first s' m"
  by (simp add: fak_first_def)

lemma fak_first_pop:
  assumes f: "fak_first s ((k, b # l) # r)" and d: "distinct (handles ((k, b # l) # r))"
    and t: "\<And>h. orderType (deref s' h) = orderType (deref s h)"
  shows "fak_first s' (if l = [] then r else (k, l) # r)"
proof (rule fak_first_vacuous, rule ballI)
  fix h assume "h \<in> set (handles (if l = [] then r else (k, l) # r))"
  then have "h \<in> set l \<union> set (handles r)" by (auto split: if_splits)
  then show "orderType (deref s' h) \<noteq> FillAndKill"
    using fak_first_tail [OF f d] t by simp
qed

lemma match_body_inv:
  assumes I: "loop_inv s0 s" and B: "bids s = (bp, b # bl) # br" and A: "asks s = (ap, a # al) # ar"
    and c: "ap \<le> bp"
  shows "\<exists>brk s'. match_body bp ap s = Inr (brk, s') \<and> loop_inv s0 s' \<and>
     length (live s') < length (live s) \<and>
     (\<not> brk \<longrightarrow> (\<exists>b' bl' a' al'. bids s' = (bp, b' # bl') # br \<and> asks s' = (ap, a' # al') # ar))"
proof -
  define rb where "rb = remainingQuantity (deref s b)"
  define ra where "ra = remainingQuantity (deref s a)"
  from I have w: "wf_book s" and fb: "fak_first s (bids s)" and fa: "fak_first s (asks s)"
    and z: "zero_only_initial s" and t: "trades_ok (trades s)" and e: "evolves s0 s"
    by (simp_all add: loop_inv_def)
  note hs = wf_heads [OF w B A] and dh = wf_distinct_handles [OF w]
  from match_body_summary [OF w B A, folded rb_def ra_def]
  obtain s' where m: "match_body bp ap s = Inr ((rb \<le> ra \<and> bl = []) \<or> (ra \<le> rb \<and> al = []), s')"
    and w': "wf_book s'"
    and b': "bids s' = (if rb \<le> ra then (if bl = [] then br else (bp, bl) # br) else bids s)"
    and a': "asks s' = (if ra \<le> rb then (if al = [] then ar else (ap, al) # ar) else asks s)"
    and l': "live s' = filter (\<lambda>x. (rb \<le> ra \<longrightarrow> x \<noteq> b) \<and> (ra \<le> rb \<longrightarrow> x \<noteq> a)) (live s)"
    and t': "trades s' = trades s @ [Trade (TradeInfo (orderId (deref s b)) bp (min rb ra))
                                   (TradeInfo (orderId (deref s a)) ap (min rb ra))]"
    and p': "pool_size (orderPool s') = pool_size (orderPool s)"
    and d': "\<forall>h. deref s' h = (if h = a then (deref s a)\<lparr>remainingQuantity := ra - min rb ra\<rparr>
                        else if h = b then (deref s b)\<lparr>remainingQuantity := rb - min rb ra\<rparr>
                        else deref s h)"
    and tl': "tails s \<subseteq> tails s'"
    by blast
  have ty: "\<And>h. orderType (deref s' h) = orderType (deref s h)"
    using d' by simp
  have 1: "fak_first s' (bids s')"
  proof (cases "rb \<le> ra")
    case True
    then show ?thesis
      using fak_first_pop [of s bp b bl br s'] fb dh B ty b' by simp
  next
    case False
    then show ?thesis using fak_first_types [OF fb ty] b' by simp
  qed
  have 2: "fak_first s' (asks s')"
  proof (cases "ra \<le> rb")
    case True
    then show ?thesis
      using fak_first_pop [of s ap a al ar s'] fa dh A ty a' by simp
  next
    case False
    then show ?thesis using fak_first_types [OF fa ty] a' by simp
  qed
  have 3: "zero_only_initial s'"
    unfolding zero_only_initial_def
  proof (intro ballI impI)
    fix h assume h: "h \<in> set (live s')" and r0: "remainingQuantity (deref s' h) = 0"
    from h l' have hl: "h \<in> set (live s)" "rb \<le> ra \<longrightarrow> h \<noteq> b" "ra \<le> rb \<longrightarrow> h \<noteq> a"
      by auto
    have "h \<noteq> a"
    proof
      assume "h = a"
      with hl have "\<not> ra \<le> rb" by blast
      then have "min rb ra = rb" "ra - rb \<noteq> 0" by auto
      with r0 d' \<open>h = a\<close> show False by simp
    qed
    moreover have "h \<noteq> b"
    proof
      assume "h = b"
      with hl have "\<not> rb \<le> ra" by blast
      then have "min rb ra = ra" "rb - ra \<noteq> 0" by auto
      with r0 d' \<open>h = b\<close> hs(1) show False by simp
    qed
    ultimately have "deref s' h = deref s h" using d' by simp
    then show "initialQuantity (deref s' h) = 0"
      using z hl(1) r0 by (simp add: zero_only_initial_def)
  qed
  have 4: "trades_ok (trades s')"
    using t t' c by (simp add: trades_ok_def)
  have "evolves s s'"
    unfolding evolves_def
  proof (intro conjI allI)
    show "set (live s') \<subseteq> set (live s)" using l' by auto
    show "pool_size (orderPool s') = pool_size (orderPool s)" by (rule p')
    show "tails s \<subseteq> tails s'" by (rule tl')
    fix h
    have "ra - min rb ra \<le> ra" "rb - min rb ra \<le> rb"
      by (simp_all add: word_sub_le)
    then show "\<exists>r\<le>remainingQuantity (deref s h). deref s' h = (deref s h)\<lparr>remainingQuantity := r\<rparr>"
      using d' by (auto simp: rb_def ra_def intro: exI [of _ "remainingQuantity (deref s h)"])
  qed
  then have 5: "evolves s0 s'" using e evolves_trans by blast
  have 6: "length (live s') < length (live s)"
  proof (cases "rb \<le> ra")
    case True
    then show ?thesis
      unfolding l' by (intro length_filter_less [OF hs(4)]) simp
  next
    case False
    then have "ra \<le> rb" by auto
    then show ?thesis
      unfolding l' by (intro length_filter_less [OF hs(5)]) simp
  qed
  have 7: "\<not> ((rb \<le> ra \<and> bl = []) \<or> (ra \<le> rb \<and> al = [])) \<longrightarrow>
       (\<exists>b' bl' a' al'. bids s' = (bp, b' # bl') # br \<and> asks s' = (ap, a' # al') # ar)"
    using a' b' A B by (cases bl; cases al) auto
  show ?thesis
    using m w' 1 2 3 4 5 6 7 unfolding loop_inv_def by blast
qed

lemma match_level_inv:
  "loop_inv s0 s \<Longrightarrow> bids s = (bp, b # bl) # br \<Longrightarrow> asks s = (ap, a # al) # ar \<Longrightarrow> ap \<le> bp \<Longrightarrow>
   \<exists>s'. match_level bp ap s = Some (Inr s') \<and> loop_inv s0 s' \<and> length (live s') < length (live s)"
proof (induction "length (live s)" arbitrary: s b bl a al rule: less_induct)
  case less
  from match_body_inv [OF less.prems]
  obtain brk s1 where m: "match_body bp ap s = Inr (brk, s1)" and i1: "loop_inv s0 s1"
    and l1: "length (live s1) < length (live s)"
    and sh: "\<not> brk \<longrightarrow> (\<exists>b' bl' a' al'. bids s1 = (bp, b' # bl') # br \<and> asks s1 = (ap, a' # al') # ar)"
    by blast
  have g: "size_ol (level_at bp (bids s)) \<noteq> 0 \<and> size_ol (level_at ap (asks s)) \<noteq> 0"
    using less.prems(2,3) by (simp add: size_ol_def level_at_def)
  show ?case
  proof (cases brk)
    case True
    then have "match_level bp ap s = Some (Inr s1)"
      using g m by (subst match_level.simps) simp
    then show ?thesis using i1 l1 by blast
  next
    case False
    with sh obtain b' bl' a' al' where s1: "bids s1 = (bp, b' # bl') # br" "asks s1 = (ap, a' # al') # ar"
      by blast
    from less.hyps [OF l1 i1 s1 less.prems(4)]
    obtain s' where s': "match_level bp ap s1 = Some (Inr s')" "loop_inv s0 s'"
      "length (live s') < length (live s1)" by blast
    have "match_level bp ap s = Some (Inr s')"
      using g m False s'(1) by (subst match_level.simps) simp
    then show ?thesis using s'(2,3) l1 by force
  qed
qed

lemma uncrossed_heads:
  assumes "wf_book s" "bids s = (bp, bl) # br" "asks s = (ap, al) # ar" "bp < ap"
  shows "uncrossed s"
proof -
  from assms(1,2) have "\<forall>k \<in> fst ` set br. k < bp"
    by (auto simp: wf_book_def side_ok_def)
  moreover from assms(1,3) have "\<forall>k \<in> fst ` set ar. ap < k"
    by (auto simp: wf_book_def side_ok_def)
  ultimately have "\<forall>x \<in> insert bp (fst ` set br). \<forall>y \<in> insert ap (fst ` set ar). x < y"
    using assms(4) by (metis insertE order.strict_trans)
  then show ?thesis
    unfolding uncrossed_def assms(2) assms(3) by simp
qed

lemma match_loop_inv:
  "loop_inv s0 s \<Longrightarrow> \<exists>s'. match_loop s = Some (Inr s') \<and> loop_inv s0 s' \<and> uncrossed s'"
proof (induction "length (live s)" arbitrary: s rule: less_induct)
  case less
  from less.prems have w: "wf_book s" by (simp add: loop_inv_def)
  show ?case
  proof (cases "bids s")
    case Nil
    then have "match_loop s = Some (Inr s)"
      by (subst match_loop.simps) simp
    moreover have "uncrossed s"
      using Nil by (simp add: uncrossed_def)
    ultimately show ?thesis using less.prems by blast
  next
    case (Cons eb br)
    obtain bp lb where eb: "eb = (bp, lb)" by (cases eb)
    show ?thesis
    proof (cases "asks s")
      case Nil
      then have "match_loop s = Some (Inr s)"
        using Cons eb by (subst match_loop.simps) simp
      moreover have "uncrossed s"
        using Nil by (simp add: uncrossed_def)
      ultimately show ?thesis using less.prems by blast
    next
      case Cons2: (Cons ea ar)
      obtain ap la where ea: "ea = (ap, la)" by (cases ea)
      show ?thesis
      proof (cases "bp < ap")
        case True
        then have "match_loop s = Some (Inr s)"
          using Cons Cons2 eb ea by (subst match_loop.simps) simp
        moreover have "uncrossed s"
          using uncrossed_heads [OF w] Cons Cons2 eb ea True by blast
        ultimately show ?thesis using less.prems by blast
      next
        case False
        from wf_noempty [OF w] Cons Cons2 eb ea have "lb \<noteq> []" "la \<noteq> []" by auto
        then obtain b bl a al where l: "lb = b # bl" "la = a # al"
          by (cases lb; cases la) auto
        have B: "bids s = (bp, b # bl) # br" and A: "asks s = (ap, a # al) # ar"
          using Cons Cons2 eb ea l by simp_all
        from match_level_inv [OF less.prems B A] False
        obtain s1 where s1: "match_level bp ap s = Some (Inr s1)" "loop_inv s0 s1"
          "length (live s1) < length (live s)" by auto
        from less.hyps [OF s1(3) s1(2)]
        obtain s' where s': "match_loop s1 = Some (Inr s')" "loop_inv s0 s'" "uncrossed s'"
          by blast
        have "match_loop s = Some (Inr s')"
          using B A False s1(1) s'(1) by (subst match_loop.simps) simp
        then show ?thesis using s'(2,3) by blast
      qed
    qed
  qed
qed

lemma no_fak_iff: "no_fak s \<longleftrightarrow> no_fak_in s (bids s) \<and> no_fak_in s (asks s)"
  by (auto simp: no_fak_def no_fak_in_def live_def)

lemma handles_drop_handle_subset: "set (handles (drop_handle h m)) \<subseteq> set (handles m)"
proof
  fix x assume "x \<in> set (handles (drop_handle h m))"
  then obtain k l' where "(k, l') \<in> set (drop_handle h m)" "x \<in> set l'"
    using in_handles_iff by blast
  then obtain l where "(k, l) \<in> set m" "x \<in> set l"
    using drop_handle_entry notin_set_remove1 by metis
  then show "x \<in> set (handles m)" using in_handles_iff by blast
qed

lemma keys_drop_handle: "k \<in> fst ` set (drop_handle h m) \<Longrightarrow> k \<in> fst ` set m"
  by (force simp: drop_handle_def)

lemma live_unlink_subset: "set (live (unlink h s)) \<subseteq> set (live s)"
  using handles_drop_handle_subset by (fastforce simp: live_def)

lemma uncrossed_unlink: "uncrossed s \<Longrightarrow> uncrossed (unlink h s)"
  unfolding uncrossed_def
proof (intro ballI)
  fix bp ap assume u: "\<forall>bp\<in>fst ` set (bids s). \<forall>ap\<in>fst ` set (asks s). bp < ap"
    and "bp \<in> fst ` set (bids (unlink h s))" "ap \<in> fst ` set (asks (unlink h s))"
  then have "bp \<in> fst ` set (bids s)" "ap \<in> fst ` set (asks s)"
    using keys_drop_handle by auto
  with u show "bp < ap" by blast
qed

lemma zero_only_initial_unlink: "zero_only_initial s \<Longrightarrow> zero_only_initial (unlink h s)"
  using live_unlink_subset [of h s] by (auto simp: zero_only_initial_def)

lemma evolves_unlink: "evolves s (unlink h s)"
  using live_unlink_subset [of h s] tails_unlink [of s h]
  by (auto simp: evolves_def intro: exI [of _ "remainingQuantity (deref s x)" for x])

lemma sweep_Nil: "sweep [] s = Inr s"
  by (simp add: sweep_def)

lemma sweep_Cons:
  assumes "wf_book s" "m = (k, h # l) # r" "m = bids s \<or> m = asks s"
  shows "sweep m s = Inr (if orderType (deref s h) = FillAndKill then unlink h s else s)"
proof -
  have "h \<in> set (handles m)" using assms(2) by simp
  then have "h \<in> set (live s)" using assms(3) by (auto simp: live_def)
  then have "orders s (orderId (deref s h)) = Some h"
    using assms(1) by (simp add: wf_book_def)
  then have "CancelOrder (orderId (deref s h)) s = Inr (unlink h s)"
    using assms(1) by (rule CancelOrder_unlink [rotated])
  then show ?thesis
    using assms(2) by (simp add: sweep_def empty_ol_def front_def)
qed

text \<open>After the block for one side no FillAndKill order is left in that side.\<close>

lemma sweep_bids_inv:
  assumes w: "wf_book s" and f: "fak_first s (bids s)"
  shows "\<exists>s'. sweep (bids s) s = Inr s' \<and> (s' = s \<or> (\<exists>h \<in> set (live s). s' = unlink h s)) \<and>
     no_fak_in s' (bids s') \<and> asks s' = asks s"
proof (cases "bids s")
  case Nil
  then show ?thesis by (simp add: sweep_Nil no_fak_in_def)
next
  case (Cons e r)
  obtain k lv where e: "e = (k, lv)" by (cases e)
  with wf_noempty [OF w] Cons obtain h l where lv: "lv = h # l" by (cases lv) auto
  have B: "bids s = (k, h # l) # r" using Cons e lv by simp
  note dh = wf_distinct_handles [OF w] and ne = wf_noempty [OF w]
  have sw: "sweep (bids s) s = Inr (if orderType (deref s h) = FillAndKill then unlink h s else s)"
    using sweep_Cons [OF w B] by simp
  have tl: "\<forall>x \<in> set l \<union> set (handles r). orderType (deref s x) \<noteq> FillAndKill"
    using fak_first_tail [of s k h l r] f dh B by auto
  show ?thesis
  proof (cases "orderType (deref s h) = FillAndKill")
    case True
    have hl: "h \<in> set (live s)" using B by (simp add: live_def)
    have "drop_handle h (bids s) = (if l = [] then r else (k, l) # r)"
      using dh ne B by (simp add: drop_handle_Cons drop_handle_id)
    then have "no_fak_in (unlink h s) (bids (unlink h s))"
      using tl by (auto simp: no_fak_in_def)
    moreover have "h \<notin> set (handles (asks s))" using dh B by auto
    then have "asks (unlink h s) = asks s"
      using ne drop_handle_id by fastforce
    ultimately show ?thesis using sw True hl by auto
  next
    case False
    then have "no_fak_in s (bids s)"
      using tl B by (auto simp: no_fak_in_def)
    then show ?thesis using sw False by simp
  qed
qed

lemma sweep_asks_inv:
  assumes w: "wf_book s" and f: "fak_first s (asks s)"
  shows "\<exists>s'. sweep (asks s) s = Inr s' \<and> (s' = s \<or> (\<exists>h \<in> set (live s). s' = unlink h s)) \<and>
     no_fak_in s' (asks s') \<and> bids s' = bids s"
proof (cases "asks s")
  case Nil
  then show ?thesis by (simp add: sweep_Nil no_fak_in_def)
next
  case (Cons e r)
  obtain k lv where e: "e = (k, lv)" by (cases e)
  with wf_noempty [OF w] Cons obtain h l where lv: "lv = h # l" by (cases lv) auto
  have A: "asks s = (k, h # l) # r" using Cons e lv by simp
  note dh = wf_distinct_handles [OF w] and ne = wf_noempty [OF w]
  have sw: "sweep (asks s) s = Inr (if orderType (deref s h) = FillAndKill then unlink h s else s)"
    using sweep_Cons [OF w A] by simp
  have tl: "\<forall>x \<in> set l \<union> set (handles r). orderType (deref s x) \<noteq> FillAndKill"
    using fak_first_tail [of s k h l r] f dh A by auto
  show ?thesis
  proof (cases "orderType (deref s h) = FillAndKill")
    case True
    have hl: "h \<in> set (live s)" using A by (simp add: live_def)
    have "drop_handle h (asks s) = (if l = [] then r else (k, l) # r)"
      using dh ne A by (simp add: drop_handle_Cons drop_handle_id)
    then have "no_fak_in (unlink h s) (asks (unlink h s))"
      using tl by (auto simp: no_fak_in_def)
    moreover have "h \<notin> set (handles (bids s))" using dh A by auto
    then have "bids (unlink h s) = bids s"
      using ne drop_handle_id by fastforce
    ultimately show ?thesis using sw True hl by auto
  next
    case False
    then have "no_fak_in s (asks s)"
      using tl A by (auto simp: no_fak_in_def)
    then show ?thesis using sw False by simp
  qed
qed

text \<open>What is kept by a step that is the identity or takes one order out.\<close>

lemma unlink_step_keeps:
  assumes "s' = s \<or> (\<exists>h \<in> set (live s). s' = unlink h s)"
  shows "wf_book s \<Longrightarrow> wf_book s'" "uncrossed s \<Longrightarrow> uncrossed s'"
    "zero_only_initial s \<Longrightarrow> zero_only_initial s'" "evolves s s'" "trades s' = trades s"
    "deref s' x = deref s x"
  using assms
  by (auto simp: wf_unlink uncrossed_unlink zero_only_initial_unlink evolves_unlink evolves_refl)

lemma MatchOrders_inv:
  assumes w: "wf_book s" and fb: "fak_first s (bids s)" and fa: "fak_first s (asks s)"
    and z: "zero_only_initial s"
  shows "\<exists>ts s'. MatchOrders s = Some (Inr (ts, s')) \<and> book_inv s' \<and> trades_ok ts \<and> evolves s s'"
proof -
  let ?s0 = "s\<lparr>trades := []\<rparr>"
  have e0: "evolves s ?s0"
    by (auto simp: evolves_def intro: exI [of _ "remainingQuantity (deref s x)" for x])
  have "loop_inv ?s0 ?s0"
    using w fb fa z
    by (simp add: loop_inv_def evolves_refl trades_ok_def fak_first_def zero_only_initial_def)
  from match_loop_inv [OF this]
  obtain s1 where s1: "match_loop ?s0 = Some (Inr s1)" "loop_inv ?s0 s1" "uncrossed s1"
    by blast
  from s1(2) have i1: "wf_book s1" "fak_first s1 (bids s1)" "fak_first s1 (asks s1)"
    "zero_only_initial s1" "trades_ok (trades s1)" "evolves ?s0 s1"
    by (simp_all add: loop_inv_def)
  from sweep_bids_inv [OF i1(1,2)]
  obtain s2 where s2: "sweep (bids s1) s1 = Inr s2" "s2 = s1 \<or> (\<exists>h \<in> set (live s1). s2 = unlink h s1)"
    "no_fak_in s2 (bids s2)" "asks s2 = asks s1" by blast
  note k2 = unlink_step_keeps [OF s2(2)]
  have f2: "fak_first s2 (asks s2)"
    using i1(3) by (simp add: fak_first_def s2(4) k2(6))
  have w2: "wf_book s2" using k2(1) i1(1) by blast
  from sweep_asks_inv [OF w2 f2]
  obtain s3 where s3: "sweep (asks s2) s2 = Inr s3" "s3 = s2 \<or> (\<exists>h \<in> set (live s2). s3 = unlink h s2)"
    "no_fak_in s3 (asks s3)" "bids s3 = bids s2" by blast
  note k3 = unlink_step_keeps [OF s3(2)]
  have "no_fak_in s3 (bids s3)"
    using s2(3) by (simp add: no_fak_in_def s3(4) k3(6))
  then have nf: "no_fak s3" using s3(3) no_fak_iff by blast
  have "wf_book s3" using k3(1) w2 by blast
  moreover have "uncrossed s3" using k3(2) k2(2) s1(3) by blast
  moreover have "zero_only_initial s3" using k3(3) k2(3) i1(4) by blast
  ultimately have bi: "book_inv s3" using nf by (simp add: book_inv_def)
  have tr: "trades s3 = trades s1" using k2(5) k3(5) by simp
  have "evolves s s1" using e0 i1(6) by (rule evolves_trans)
  then have "evolves s s2" using k2(4) by (rule evolves_trans)
  then have ev: "evolves s s3" using k3(4) by (rule evolves_trans)
  have "MatchOrders s = Some (Inr (trades s3, s3))"
    using s1(1) s2(1) s3(1) by (simp add: MatchOrders_def)
  then show ?thesis using bi tr i1(5) ev by auto
qed

subsection \<open>Linking a new order\<close>

lemma link_at_Nil [simp]: "link_at cmp k h [] = [(k, [h])]"
  by (simp add: link_at_def level_at_def push_back_def)

lemma link_at_Cons:
  "link_at cmp k h ((k', l) # m) =
     (if k = k' then (k', l @ [h]) # m
      else if cmp k k' then (k, [h]) # (k', l) # m
      else (k', l) # link_at cmp k h m)"
  by (simp add: link_at_def level_at_def push_back_def Let_def)

lemma set_handles_link_at: "set (handles (link_at cmp k h m)) = insert h (set (handles m))"
  by (induction m) (auto simp: link_at_Cons split: if_splits)

lemma distinct_handles_link_at:
  "distinct (handles m) \<Longrightarrow> h \<notin> set (handles m) \<Longrightarrow> distinct (handles (link_at cmp k h m))"
  by (induction m) (auto simp: link_at_Cons set_handles_link_at)

lemma keys_link_at: "fst ` set (link_at cmp k h m) = insert k (fst ` set m)"
proof (induction m)
  case Nil
  then show ?case by simp
next
  case (Cons e m)
  obtain k' l where e: "e = (k', l)" by (cases e)
  show ?case
    unfolding e link_at_Cons using Cons.IH by (simp add: insert_commute)
qed

lemma sorted_link_at:
  assumes "cmp = (<) \<or> cmp = (>)"
  shows "sorted_wrt cmp (map fst m) \<Longrightarrow> sorted_wrt cmp (map fst (link_at cmp k h m))"
proof (induction m)
  case Nil
  then show ?case by simp
next
  case (Cons e m)
  obtain k' l where e: "e = (k', l)" by (cases e)
  from Cons.prems e have s: "\<forall>x \<in> fst ` set m. cmp k' x" "sorted_wrt cmp (map fst m)"
    by auto
  have tr: "\<And>x. cmp k k' \<Longrightarrow> cmp k' x \<Longrightarrow> cmp k x"
    using assms by auto
  have to: "k \<noteq> k' \<Longrightarrow> \<not> cmp k k' \<Longrightarrow> cmp k' k"
    using assms by auto
  show ?case
    using s Cons.IH tr to by (auto simp: e link_at_Cons keys_link_at)
qed

lemma entries_link_at:
  "\<forall>(k', l) \<in> set m. l \<noteq> [] \<and> (\<forall>x \<in> set l. Q x k') \<Longrightarrow> Q h k \<Longrightarrow>
   \<forall>(k', l) \<in> set (link_at cmp k h m). l \<noteq> [] \<and> (\<forall>x \<in> set l. Q x k')"
proof (induction m)
  case Nil
  then show ?case by simp
next
  case (Cons e m)
  obtain k' l where e: "e = (k', l)" by (cases e)
  from Cons.prems e have p: "l \<noteq> []" "\<forall>x \<in> set l. Q x k'"
    "\<forall>(k', l) \<in> set m. l \<noteq> [] \<and> (\<forall>x \<in> set l. Q x k')" by auto
  note ih = Cons.IH [OF p(3) Cons.prems(2)]
  show ?case
    using p ih Cons.prems(2) by (auto simp: e link_at_Cons)
qed

lemma side_ok_frame:
  assumes "side_ok cmp sd s m"
    and "\<forall>x \<in> set (handles m). side (deref s' x) = side (deref s x) \<and> price (deref s' x) = price (deref s x)"
  shows "side_ok cmp sd s' m"
  unfolding side_ok_def
proof (intro conjI ballI)
  show "sorted_wrt cmp (map fst m)" using assms(1) by (simp add: side_ok_def)
next
  fix e assume e: "e \<in> set m"
  obtain k l where kl: "e = (k, l)" by (cases e)
  have "l \<noteq> []" "\<forall>h \<in> set l. side (deref s h) = sd \<and> price (deref s h) = k"
    using assms(1) e kl by (auto simp: side_ok_def)
  moreover have "\<forall>h \<in> set l. h \<in> set (handles m)"
    using e kl in_handles_iff by blast
  ultimately have "l \<noteq> [] \<and> (\<forall>h \<in> set l. side (deref s' h) = sd \<and> price (deref s' h) = k)"
    using assms(2) by simp
  then show "case e of (k, l) \<Rightarrow> l \<noteq> [] \<and> (\<forall>h\<in>set l. side (deref s' h) = sd \<and> price (deref s' h) = k)"
    using kl by simp
qed

lemma side_ok_link_at:
  assumes ok: "side_ok cmp sd s m" and c: "cmp = (<) \<or> cmp = (>)"
    and fr: "\<forall>x \<in> set (handles m). side (deref s' x) = side (deref s x) \<and> price (deref s' x) = price (deref s x)"
    and h: "side (deref s' h) = sd" "price (deref s' h) = k"
  shows "side_ok cmp sd s' (link_at cmp k h m)"
proof -
  have ok': "side_ok cmp sd s' m" using ok fr by (rule side_ok_frame)
  then have "\<forall>(k', l) \<in> set m. l \<noteq> [] \<and> (\<forall>x \<in> set l. side (deref s' x) = sd \<and> price (deref s' x) = k')"
    by (simp add: side_ok_def)
  then have "\<forall>(k', l) \<in> set (link_at cmp k h m). l \<noteq> [] \<and> (\<forall>x \<in> set l. side (deref s' x) = sd \<and> price (deref s' x) = k')"
    using h by (intro entries_link_at) auto
  moreover have "sorted_wrt cmp (map fst (link_at cmp k h m))"
    using ok' c by (simp add: side_ok_def sorted_link_at)
  ultimately show ?thesis by (simp add: side_ok_def)
qed

lemma link_at_front:
  "m = [] \<or> (cmp k (fst (hd m)) \<and> k \<noteq> fst (hd m)) \<Longrightarrow> link_at cmp k h m = (k, [h]) # m"
  by (cases m) (auto simp: link_at_Cons)

lemma last_notin_butlast: "distinct xs \<Longrightarrow> xs \<noteq> [] \<Longrightarrow> last xs \<notin> set (butlast xs)"
  by (metis append_butlast_last_id distinct_butlast not_distinct_conv_prefix)

lemma AddOrder_linked:
  assumes "orders s oid = None" "\<not> (ty = FillAndKill \<and> \<not> CanMatch sd pr s)"
    "free_indices (orderPool s) \<noteq> []"
  shows "AddOrder ty oid sd pr q s = MatchOrders (linked ty oid sd pr q s)"
  using assms
  by (auto simp: AddOrder_def acquire_def linked_def Let_def deref_def Order_new_def link_at_def
      intro!: arg_cong [where f = MatchOrders])

lemma AddOrder_exhausted:
  assumes "orders s oid = None" "\<not> (ty = FillAndKill \<and> \<not> CanMatch sd pr s)"
    "free_indices (orderPool s) = []"
  shows "AddOrder ty oid sd pr q s = Some (Inl PoolExhausted)"
  using assms by (auto simp: AddOrder_def acquire_def)

lemma linked_simps [simp]:
  "bids (linked ty oid sd pr q s) =
     (if sd = Buy then link_at (>) pr (last (free_indices (orderPool s))) (bids s) else bids s)"
  "asks (linked ty oid sd pr q s) =
     (if sd = Buy then asks s else link_at (<) pr (last (free_indices (orderPool s))) (asks s))"
  "orders (linked ty oid sd pr q s) = (orders s)(oid \<mapsto> last (free_indices (orderPool s)))"
  "trades (linked ty oid sd pr q s) = trades s"
  "free_indices (orderPool (linked ty oid sd pr q s)) = butlast (free_indices (orderPool s))"
  "pool_size (orderPool (linked ty oid sd pr q s)) = pool_size (orderPool s)"
  "deref (linked ty oid sd pr q s) x =
     (if x = last (free_indices (orderPool s)) then Order_new ty oid sd pr q else deref s x)"
  by (simp_all add: linked_def Let_def deref_def)

lemma live_linked:
  "set (live (linked ty oid sd pr q s)) = insert (last (free_indices (orderPool s))) (set (live s))"
  by (auto simp: live_def set_handles_link_at)

lemma wf_linked:
  assumes w: "wf_book s" and o: "orders s oid = None" and f: "free_indices (orderPool s) \<noteq> []"
  shows "wf_book (linked ty oid sd pr q s)" "last (free_indices (orderPool s)) \<notin> set (live s)"
proof -
  let ?h = "last (free_indices (orderPool s))" and ?s = "linked ty oid sd pr q s"
  from w have d: "distinct (live s)" and df: "distinct (free_indices (orderPool s))"
    and dj: "set (live s) \<inter> set (free_indices (orderPool s)) = {}"
    and bd: "\<forall>h \<in> set (live s) \<union> set (free_indices (orderPool s)). h < pool_size (orderPool s)"
    and ix: "\<forall>h \<in> set (live s). orders s (orderId (deref s h)) = Some h"
    and xi: "\<forall>oid h. orders s oid = Some h \<longrightarrow> h \<in> set (live s) \<and> orderId (deref s h) = oid"
    and sb: "side_ok (>) Buy s (bids s)" and sa: "side_ok (<) Sell s (asks s)"
    by (simp_all add: wf_book_def)
  have hf: "?h \<in> set (free_indices (orderPool s))" using f by simp
  then show hl: "?h \<notin> set (live s)" using dj by auto
  then have hb: "?h \<notin> set (handles (bids s))" "?h \<notin> set (handles (asks s))"
    by (simp_all add: live_def)
  have fr: "\<And>x. x \<in> set (live s) \<Longrightarrow> deref ?s x = deref s x"
    using hl by auto
  have frb: "\<forall>x \<in> set (handles (bids s)). side (deref ?s x) = side (deref s x) \<and> price (deref ?s x) = price (deref s x)"
    using fr by (simp add: live_def)
  have fra: "\<forall>x \<in> set (handles (asks s)). side (deref ?s x) = side (deref s x) \<and> price (deref ?s x) = price (deref s x)"
    using fr by (simp add: live_def)
  have nw: "side (deref ?s ?h) = sd" "price (deref ?s ?h) = pr" "orderId (deref ?s ?h) = oid"
    by (simp_all add: Order_new_def)
  have 1: "side_ok (>) Buy ?s (bids ?s)"
  proof (cases "sd = Buy")
    case True
    then show ?thesis
      using side_ok_link_at [OF sb _ frb, of ?h pr] nw by simp
  next
    case False
    then show ?thesis using side_ok_frame [OF sb frb] by simp
  qed
  have 2: "side_ok (<) Sell ?s (asks ?s)"
  proof (cases "sd = Buy")
    case True
    then show ?thesis using side_ok_frame [OF sa fra] by simp
  next
    case False
    then have "sd = Sell" by (cases sd) auto
    then show ?thesis
      using side_ok_link_at [OF sa _ fra, of ?h pr] nw by simp
  qed
  have 3: "distinct (live ?s)"
    using d hb by (auto simp: live_def distinct_handles_link_at set_handles_link_at)
  have 4: "distinct (free_indices (orderPool ?s))"
    using df by (simp add: distinct_butlast)
  have 5: "set (live ?s) \<inter> set (free_indices (orderPool ?s)) = {}"
    using dj last_notin_butlast [OF df f] by (auto simp: live_linked dest: in_set_butlastD)
  have 6: "\<forall>h' \<in> set (live ?s) \<union> set (free_indices (orderPool ?s)). h' < pool_size (orderPool ?s)"
    using bd hf by (auto simp: live_linked dest: in_set_butlastD)
  have 7: "\<forall>h' \<in> set (live ?s). orders ?s (orderId (deref ?s h')) = Some h'"
  proof
    fix h' assume "h' \<in> set (live ?s)"
    then consider "h' = ?h" | "h' \<in> set (live s)" "h' \<noteq> ?h"
      using live_linked by auto
    then show "orders ?s (orderId (deref ?s h')) = Some h'"
    proof cases
      case 1
      then show ?thesis using nw(3) by simp
    next
      case 2
      then have "orders s (orderId (deref s h')) = Some h'" using ix by blast
      moreover from this have "orderId (deref s h') \<noteq> oid" using o by auto
      ultimately show ?thesis using 2(2) by simp
    qed
  qed
  have 8: "\<forall>i h'. orders ?s i = Some h' \<longrightarrow> h' \<in> set (live ?s) \<and> orderId (deref ?s h') = i"
  proof (intro allI impI)
    fix i h' assume a: "orders ?s i = Some h'"
    show "h' \<in> set (live ?s) \<and> orderId (deref ?s h') = i"
    proof (cases "i = oid")
      case True
      with a have "h' = ?h" by simp
      then show ?thesis using True nw(3) by (simp add: live_linked)
    next
      case False
      with a have "orders s i = Some h'" by simp
      then have "h' \<in> set (live s)" "orderId (deref s h') = i" using xi by blast+
      moreover from this hl have "h' \<noteq> ?h" by auto
      ultimately show ?thesis by (simp add: live_linked)
    qed
  qed
  show "wf_book ?s"
    unfolding wf_book_def using 1 2 3 4 5 6 7 8 by blast
qed

lemma ages_refl: "ages s s"
  by (auto simp: ages_def intro: exI [of _ "remainingQuantity (deref s h)" for h])

lemma evolves_ages: "evolves s s' \<Longrightarrow> ages s s'"
  by (simp add: evolves_def ages_def)

lemma fak_first_linked:
  assumes w: "wf_book s" and nf: "no_fak s" and u: "uncrossed s"
    and f: "free_indices (orderPool s) \<noteq> []"
    and c: "ty = FillAndKill \<longrightarrow> CanMatch sd pr s"
    and hl: "last (free_indices (orderPool s)) \<notin> set (live s)"
  shows "fak_first (linked ty oid sd pr q s) (bids (linked ty oid sd pr q s))"
    "fak_first (linked ty oid sd pr q s) (asks (linked ty oid sd pr q s))"
proof -
  let ?h = "last (free_indices (orderPool s))" and ?s = "linked ty oid sd pr q s"
  have old: "\<And>x. x \<in> set (live s) \<Longrightarrow> orderType (deref ?s x) \<noteq> FillAndKill"
    using nf hl by (auto simp: no_fak_def)
  have new: "orderType (deref ?s ?h) = ty" by (simp add: Order_new_def)
  show "fak_first ?s (bids ?s)"
  proof (cases "sd = Buy \<and> ty = FillAndKill")
    case True
    with c obtain ap la ar where A: "asks s = (ap, la) # ar" "ap \<le> pr"
      by (auto simp: CanMatch_def split: list.splits)
    have "bids s = [] \<or> (fst (hd (bids s)) < pr \<and> pr \<noteq> fst (hd (bids s)))"
    proof (cases "bids s")
      case Nil
      then show ?thesis by simp
    next
      case (Cons e r)
      then have "fst e \<in> fst ` set (bids s)" by simp
      then have "fst e < ap" using u A(1) by (force simp: uncrossed_def)
      then show ?thesis using A(2) Cons by simp
    qed
    then have "link_at (>) pr ?h (bids s) = (pr, [?h]) # bids s"
      by (intro link_at_front) simp
    then have B: "bids ?s = (pr, [?h]) # bids s" using True by simp
    show ?thesis
      unfolding fak_first_def B
    proof (intro ballI impI)
      fix x assume "x \<in> set (handles ((pr, [?h]) # bids s))" "orderType (deref ?s x) = FillAndKill"
      then have "x = ?h" using old by (auto simp: live_def)
      then show "\<exists>k l r. (pr, [?h]) # bids s = (k, x # l) # r" by simp
    qed
  next
    case False
    show ?thesis
    proof (rule fak_first_vacuous, rule ballI)
      fix x assume x: "x \<in> set (handles (bids ?s))"
      show "orderType (deref ?s x) \<noteq> FillAndKill"
      proof (cases "x = ?h")
        case True
        with x hl have "sd = Buy"
          by (auto simp: live_def split: if_splits)
        with False have "ty \<noteq> FillAndKill" by simp
        then show ?thesis using True new by simp
      next
        case False
        with x have "x \<in> set (live s)"
          by (auto simp: live_def set_handles_link_at split: if_splits)
        then show ?thesis by (rule old)
      qed
    qed
  qed
  show "fak_first ?s (asks ?s)"
  proof (cases "sd = Sell \<and> ty = FillAndKill")
    case True
    with c obtain bp lb br where B: "bids s = (bp, lb) # br" "pr \<le> bp"
      by (auto simp: CanMatch_def split: list.splits)
    have "asks s = [] \<or> (pr < fst (hd (asks s)) \<and> pr \<noteq> fst (hd (asks s)))"
    proof (cases "asks s")
      case Nil
      then show ?thesis by simp
    next
      case (Cons e r)
      then have "fst e \<in> fst ` set (asks s)" by simp
      then have "bp < fst e" using u B(1) by (force simp: uncrossed_def)
      then show ?thesis using B(2) Cons by simp
    qed
    then have "link_at (<) pr ?h (asks s) = (pr, [?h]) # asks s"
      by (intro link_at_front) simp
    then have A: "asks ?s = (pr, [?h]) # asks s" using True by simp
    show ?thesis
      unfolding fak_first_def A
    proof (intro ballI impI)
      fix x assume "x \<in> set (handles ((pr, [?h]) # asks s))" "orderType (deref ?s x) = FillAndKill"
      then have "x = ?h" using old by (auto simp: live_def)
      then show "\<exists>k l r. (pr, [?h]) # asks s = (k, x # l) # r" by simp
    qed
  next
    case False
    show ?thesis
    proof (rule fak_first_vacuous, rule ballI)
      fix x assume x: "x \<in> set (handles (asks ?s))"
      show "orderType (deref ?s x) \<noteq> FillAndKill"
      proof (cases "x = ?h")
        case True
        with x hl have "sd \<noteq> Buy"
          by (auto simp: live_def split: if_splits)
        then have "sd = Sell" by (cases sd) auto
        with False have "ty \<noteq> FillAndKill" by simp
        then show ?thesis using True new by simp
      next
        case False
        with x have "x \<in> set (live s)"
          by (auto simp: live_def set_handles_link_at split: if_splits)
        then show ?thesis by (rule old)
      qed
    qed
  qed
qed

lemma zero_only_initial_linked:
  assumes "zero_only_initial s" "last (free_indices (orderPool s)) \<notin> set (live s)"
  shows "zero_only_initial (linked ty oid sd pr q s)"
  using assms by (auto simp: zero_only_initial_def live_linked Order_new_def)

lemma book_inv_new: "book_inv OrderBook_new"
  by (simp add: book_inv_def wf_book_def side_ok_def live_def no_fak_def uncrossed_def
      zero_only_initial_def OrderBook_new_def ObjectPool_new_def)

lemma last_link_at:
  "h \<notin> set (handles m) \<Longrightarrow> \<forall>(k', l) \<in> set (link_at cmp k h m). h \<in> set l \<longrightarrow> last l = h"
proof (induction m)
  case Nil
  then show ?case by simp
next
  case (Cons e m)
  obtain k' l where e: "e = (k', l)" by (cases e)
  from Cons.prems e have p: "h \<notin> set l" "h \<notin> set (handles m)" by auto
  then have old: "\<forall>(k', l) \<in> set m. h \<notin> set l"
    using in_handles_iff by blast
  show ?case
    using p(1) old Cons.IH [OF p(2)] by (auto simp: e link_at_Cons)
qed

lemma tails_linked:
  assumes "last (free_indices (orderPool s)) \<notin> set (live s)"
  shows "last (free_indices (orderPool s)) \<in> tails (linked ty oid sd pr q s)"
proof -
  let ?h = "last (free_indices (orderPool s))"
  have hb: "?h \<notin> set (handles (bids s))" and ha: "?h \<notin> set (handles (asks s))"
    using assms by (simp_all add: live_def)
  have ob: "\<forall>(k', l) \<in> set (bids s). ?h \<in> set l \<longrightarrow> last l = ?h"
    using hb in_handles_iff by blast
  have oa: "\<forall>(k', l) \<in> set (asks s). ?h \<in> set l \<longrightarrow> last l = ?h"
    using ha in_handles_iff by blast
  show ?thesis
  proof (cases "sd = Buy")
    case True
    then show ?thesis
      using last_link_at [OF hb, of "(>)" pr] oa by (auto simp: tails_def)
  next
    case False
    then show ?thesis
      using last_link_at [OF ha, of "(<)" pr] ob by (auto simp: tails_def)
  qed
qed

lemma AddOrder_inv:
  assumes I: "book_inv s"
  shows "(AddOrder ty oid sd pr q s = Some (Inl PoolExhausted) \<and> free_indices (orderPool s) = []) \<or>
     (\<exists>ts s'. AddOrder ty oid sd pr q s = Some (Inr (ts, s')) \<and> book_inv s' \<and> trades_ok ts \<and>
        ages s s' \<and>
        (\<forall>x. orders s oid = None \<longrightarrow> orders s' oid = Some x \<longrightarrow>
           x \<in> tails s' \<and>
           (\<exists>r. r \<le> q \<and> deref s' x = (Order_new ty oid sd pr q)\<lparr>remainingQuantity := r\<rparr>)))"
proof -
  from I have w: "wf_book s" and nf: "no_fak s" and u: "uncrossed s" and z: "zero_only_initial s"
    by (simp_all add: book_inv_def)
  have I0: "book_inv (s\<lparr>trades := []\<rparr>)"
    using I by (simp add: book_inv_def no_fak_def uncrossed_def zero_only_initial_def)
  have a0: "ages s (s\<lparr>trades := []\<rparr>)"
    by (auto simp: ages_def intro: exI [of _ "remainingQuantity (deref s h)" for h])
  consider (dup) "orders s oid \<noteq> None"
    | (drop) "orders s oid = None" "ty = FillAndKill \<and> \<not> CanMatch sd pr s"
    | (full) "orders s oid = None" "\<not> (ty = FillAndKill \<and> \<not> CanMatch sd pr s)"
        "free_indices (orderPool s) = []"
    | (ins) "orders s oid = None" "\<not> (ty = FillAndKill \<and> \<not> CanMatch sd pr s)"
        "free_indices (orderPool s) \<noteq> []"
    by blast
  then show ?thesis
  proof cases
    case dup
    then have "AddOrder ty oid sd pr q s = Some (Inr ([], s\<lparr>trades := []\<rparr>))"
      by (simp add: AddOrder_def)
    then show ?thesis using I0 a0 dup by (auto simp: trades_ok_def)
  next
    case drop
    then have "AddOrder ty oid sd pr q s = Some (Inr ([], s))"
      by (simp add: AddOrder_def)
    then show ?thesis using I ages_refl drop(1) by (auto simp: trades_ok_def)
  next
    case full
    then show ?thesis using AddOrder_exhausted by blast
  next
    case ins
    let ?h = "last (free_indices (orderPool s))" and ?s = "linked ty oid sd pr q s"
    have wl: "wf_book ?s" "?h \<notin> set (live s)"
      using wf_linked [OF w ins(1,3)] by blast+
    have c: "ty = FillAndKill \<longrightarrow> CanMatch sd pr s" using ins(2) by blast
    have ff: "fak_first ?s (bids ?s)" "fak_first ?s (asks ?s)"
      using fak_first_linked [OF w nf u ins(3) c wl(2)] by blast+
    have zl: "zero_only_initial ?s"
      using zero_only_initial_linked [OF z wl(2)] by blast
    from MatchOrders_inv [OF wl(1) ff zl]
    obtain ts s' where m: "MatchOrders ?s = Some (Inr (ts, s'))" "book_inv s'" "trades_ok ts"
      "evolves ?s s'" by blast
    have w': "wf_book s'" using m(2) by (simp add: book_inv_def)
    have "ages s s'"
      unfolding ages_def
    proof
      fix x assume "x \<in> set (live s) \<inter> set (live s')"
      then have x: "x \<in> set (live s)" "x \<noteq> ?h" using wl(2) by auto
      from m(4) obtain r where "r \<le> remainingQuantity (deref ?s x)"
        "deref s' x = (deref ?s x)\<lparr>remainingQuantity := r\<rparr>"
        unfolding evolves_def by blast
      then show "\<exists>r. r \<le> remainingQuantity (deref s x) \<and> deref s' x = (deref s x)\<lparr>remainingQuantity := r\<rparr>"
        using x(2) by auto
    qed
    moreover have "\<forall>x. orders s oid = None \<longrightarrow> orders s' oid = Some x \<longrightarrow>
           x \<in> tails s' \<and>
           (\<exists>r. r \<le> q \<and> deref s' x = (Order_new ty oid sd pr q)\<lparr>remainingQuantity := r\<rparr>)"
    proof (intro allI impI)
      fix x assume o': "orders s' oid = Some x"
      then have x: "x \<in> set (live s')" "orderId (deref s' x) = oid"
        using w' by (simp_all add: wf_book_def)
      have "x = ?h"
      proof (rule ccontr)
        assume n: "x \<noteq> ?h"
        from x(1) m(4) have "x \<in> set (live ?s)" by (auto simp: evolves_def)
        with n have xl: "x \<in> set (live s)" by (simp add: live_linked)
        have "orderId (deref s' x) = orderId (deref ?s x)"
          using evolves_types [OF m(4)] by blast
        with n x(2) have "orderId (deref s x) = oid" by simp
        moreover have "orders s (orderId (deref s x)) = Some x"
          using w xl by (simp add: wf_book_def)
        ultimately show False using ins(1) by simp
      qed
      moreover have "?h \<in> tails s'"
        using tails_linked [OF wl(2)] m(4) by (auto simp: evolves_def)
      moreover from m(4) obtain r where "r \<le> remainingQuantity (deref ?s ?h)"
        "deref s' ?h = (deref ?s ?h)\<lparr>remainingQuantity := r\<rparr>"
        unfolding evolves_def by blast
      then have "r \<le> q \<and> deref s' ?h = (Order_new ty oid sd pr q)\<lparr>remainingQuantity := r\<rparr>"
        by (simp add: Order_new_def)
      ultimately show "x \<in> tails s' \<and>
           (\<exists>r. r \<le> q \<and> deref s' x = (Order_new ty oid sd pr q)\<lparr>remainingQuantity := r\<rparr>)"
        by blast
    qed
    moreover have "AddOrder ty oid sd pr q s = Some (Inr (ts, s'))"
      using AddOrder_linked [OF ins] m(1) by simp
    ultimately show ?thesis using m(2,3) by blast
  qed
qed

lemma no_fak_unlink: "no_fak s \<Longrightarrow> no_fak (unlink h s)"
  using live_unlink_subset [of h s] by (auto simp: no_fak_def)

lemma book_inv_unlink: "book_inv s \<Longrightarrow> h \<in> set (live s) \<Longrightarrow> book_inv (unlink h s)"
  by (simp add: book_inv_def wf_unlink no_fak_unlink uncrossed_unlink zero_only_initial_unlink)

lemma CancelOrder_inv:
  assumes I: "book_inv s"
  shows "\<exists>s'. CancelOrder oid s = Inr s' \<and> book_inv s' \<and> ages s s' \<and> set (live s') \<subseteq> set (live s)"
proof (cases "orders s oid")
  case None
  then have "CancelOrder oid s = Inr s" by (simp add: CancelOrder_def)
  then show ?thesis using I ages_refl by auto
next
  case (Some h)
  from I have w: "wf_book s" by (simp add: book_inv_def)
  then have "h \<in> set (live s)" using Some by (simp add: wf_book_def)
  then have "book_inv (unlink h s)" using I book_inv_unlink by blast
  moreover have "CancelOrder oid s = Inr (unlink h s)"
    using w Some by (rule CancelOrder_unlink)
  ultimately show ?thesis
    using evolves_ages [OF evolves_unlink] live_unlink_subset by blast
qed

lemma MatchOrder_inv:
  assumes I: "book_inv s"
  shows "\<exists>ts s'. MatchOrder oid sd pr q s = Some (Inr (ts, s')) \<and> book_inv s' \<and> trades_ok ts \<and>
     (\<forall>x \<in> set (live s) \<inter> set (live s'). orderId (deref s x) \<noteq> oid \<longrightarrow>
        (\<exists>r. r \<le> remainingQuantity (deref s x) \<and> deref s' x = (deref s x)\<lparr>remainingQuantity := r\<rparr>)) \<and>
     (\<forall>h x. orders s oid = Some h \<longrightarrow> orders s' oid = Some x \<longrightarrow>
        x \<in> tails s' \<and>
        (\<exists>r. r \<le> q \<and>
           deref s' x = (Order_new (orderType (deref s h)) oid sd pr q)\<lparr>remainingQuantity := r\<rparr>))"
proof (cases "orders s oid")
  case None
  then have "MatchOrder oid sd pr q s = Some (Inr ([], s))" by (simp add: MatchOrder_def)
  then show ?thesis
    using I None
    by (auto simp: trades_ok_def intro: exI [of _ "remainingQuantity (deref s x)" for x])
next
  case (Some h)
  let ?s1 = "unlink h s"
  from I have w: "wf_book s" by (simp add: book_inv_def)
  then have h: "h \<in> set (live s)" "orderId (deref s h) = oid" using Some by (simp_all add: wf_book_def)
  have I1: "book_inv ?s1" using I h(1) by (rule book_inv_unlink)
  have c: "CancelOrder oid s = Inr ?s1" using w Some by (rule CancelOrder_unlink)
  have l1: "live ?s1 = filter (\<lambda>x. x \<noteq> h) (live s)"
    using w by (simp add: wf_book_def live_unlink)
  have o1: "orders ?s1 oid = None" using h(2) by simp
  have "free_indices (orderPool ?s1) \<noteq> []" by simp
  with AddOrder_inv [OF I1, of "orderType (deref s h)" oid sd pr q]
  obtain ts s' where a: "AddOrder (orderType (deref s h)) oid sd pr q ?s1 = Some (Inr (ts, s'))"
    "book_inv s'" "trades_ok ts" "ages ?s1 s'"
    "\<forall>x. orders ?s1 oid = None \<longrightarrow> orders s' oid = Some x \<longrightarrow>
           x \<in> tails s' \<and>
           (\<exists>r. r \<le> q \<and> deref s' x = (Order_new (orderType (deref s h)) oid sd pr q)\<lparr>remainingQuantity := r\<rparr>)"
    by blast
  have m: "MatchOrder oid sd pr q s = Some (Inr (ts, s'))"
    using Some c a(1) by (simp add: MatchOrder_def)
  have "\<forall>x \<in> set (live s) \<inter> set (live s'). orderId (deref s x) \<noteq> oid \<longrightarrow>
        (\<exists>r. r \<le> remainingQuantity (deref s x) \<and> deref s' x = (deref s x)\<lparr>remainingQuantity := r\<rparr>)"
  proof (intro ballI impI)
    fix x assume x: "x \<in> set (live s) \<inter> set (live s')" "orderId (deref s x) \<noteq> oid"
    then have "x \<noteq> h" using h(2) by auto
    then have "x \<in> set (live ?s1) \<inter> set (live s')" using x(1) l1 by simp
    then show "\<exists>r. r \<le> remainingQuantity (deref s x) \<and> deref s' x = (deref s x)\<lparr>remainingQuantity := r\<rparr>"
      using a(4) unfolding ages_def by fastforce
  qed
  moreover have "\<forall>h' x. orders s oid = Some h' \<longrightarrow> orders s' oid = Some x \<longrightarrow>
        x \<in> tails s' \<and>
        (\<exists>r. r \<le> q \<and>
           deref s' x = (Order_new (orderType (deref s h')) oid sd pr q)\<lparr>remainingQuantity := r\<rparr>)"
    using a(5) o1 Some by simp
  ultimately show ?thesis using m a(2,3) by blast
qed

lemma apply_event_inv:
  assumes I: "book_inv s"
  shows "apply_event e s = Some (Inl PoolExhausted) \<or>
     (\<exists>ts s'. apply_event e s = Some (Inr (ts, s')) \<and> book_inv s' \<and> trades_ok ts \<and>
        (\<forall>x \<in> set (live s) \<inter> set (live s').
           (\<forall>oid sd pr q. e = Modify oid sd pr q \<longrightarrow> orderId (deref s x) \<noteq> oid) \<longrightarrow>
           (\<exists>r. r \<le> remainingQuantity (deref s x) \<and> deref s' x = (deref s x)\<lparr>remainingQuantity := r\<rparr>)))"
proof (cases e)
  case (Add ty oid sd pr q)
  then show ?thesis
    using AddOrder_inv [OF I, of ty oid sd pr q] unfolding ages_def by auto
next
  case (Cancel oid)
  then show ?thesis
    using CancelOrder_inv [OF I, of oid] unfolding ages_def by (auto simp: trades_ok_def)
next
  case (Modify oid sd pr q)
  then show ?thesis
    using MatchOrder_inv [OF I, of oid sd pr q] by auto
qed

lemma reachable_inv: "reachable s \<Longrightarrow> book_inv s"
proof (induction rule: reachable.induct)
  case init
  then show ?case by (rule book_inv_new)
next
  case (step s ev ts s')
  then show ?case using apply_event_inv [of s ev] by auto
qed

subsection \<open>Lemmas for the properties below\<close>



lemma hd_Max_keys:
  "sorted_wrt (>) (map fst m) \<Longrightarrow> m \<noteq> [] \<Longrightarrow> fst (hd m) = Max (fst ` set m)"
  for m :: PriceMap
proof (cases m)
  case Nil
  then show "m \<noteq> [] \<Longrightarrow> ?thesis" by simp
next
  case (Cons e r)
  assume "sorted_wrt (>) (map fst m)"
  then have "\<forall>y \<in> fst ` set r. y < fst e" using Cons by auto
  then have "Max (insert (fst e) (fst ` set r)) = fst e"
    by (intro Max_eqI) auto
  then show ?thesis using Cons by simp
qed

lemma hd_Min_keys:
  "sorted_wrt (<) (map fst m) \<Longrightarrow> m \<noteq> [] \<Longrightarrow> fst (hd m) = Min (fst ` set m)"
  for m :: PriceMap
proof (cases m)
  case Nil
  then show "m \<noteq> [] \<Longrightarrow> ?thesis" by simp
next
  case (Cons e r)
  assume "sorted_wrt (<) (map fst m)"
  then have "\<forall>y \<in> fst ` set r. fst e < y" using Cons by auto
  then have "Min (insert (fst e) (fst ` set r)) = fst e"
    by (intro Min_eqI) auto
  then show ?thesis using Cons by simp
qed


lemma book_crossing_heads:
  "wf_book book_crossing" "bids book_crossing = (100, 999999 # [999998]) # []"
  "asks book_crossing = (100, 999997 # []) # []"
  "deref book_crossing 999999 = Order_new GoodTillCancel 1 Buy 100 5"
  "deref book_crossing 999997 = Order_new GoodTillCancel 3 Sell 100 7"
proof -
  have "book_inv (book_bid2 5 5)" using reachable_book_bid2 by (rule reachable_inv)
  then have w: "wf_book (book_bid2 5 5)" by (simp add: book_inv_def)
  have o: "orders (book_bid2 5 5) 3 = None" and f: "free_indices (orderPool (book_bid2 5 5)) \<noteq> []"
    by (simp_all add: book_bid2_def)
  show "wf_book book_crossing"
    unfolding book_crossing_def using w o f by (rule wf_linked)
  show "bids book_crossing = (100, 999999 # [999998]) # []"
    "asks book_crossing = (100, 999997 # []) # []"
    by (simp_all add: book_crossing_def book_bid2_def)
  have l: "last (free_indices (orderPool (book_bid2 5 5))) = 999997"
    by (simp add: book_bid2_def)
  show "deref book_crossing 999999 = Order_new GoodTillCancel 1 Buy 100 5"
    "deref book_crossing 999997 = Order_new GoodTillCancel 3 Sell 100 7"
    by (simp_all add: book_crossing_def l) (simp add: book_bid2_def deref_def)
qed



lemma foldl_plus_sum_list:
  "foldl (\<lambda>runningSum x. runningSum + f x) z l = z + sum_list (map f l)"
  for z :: Quantity
  by (induction l arbitrary: z) (simp_all add: add.assoc)

lemma unat_sum_list:
  "unat (sum_list (map f l) :: Quantity) = (\<Sum>x\<leftarrow>l. unat (f x)) mod 2 ^ 32"
proof (induction l)
  case Nil
  then show ?case by simp
next
  case (Cons x l)
  have "unat (f x + sum_list (map f l)) = (unat (f x) + unat (sum_list (map f l))) mod 2 ^ 32"
    by (simp add: unat_word_ariths)
  also have "\<dots> = (unat (f x) + (\<Sum>x\<leftarrow>l. unat (f x))) mod 2 ^ 32"
    by (simp add: Cons.IH mod_add_right_eq)
  finally show ?case by simp
qed

lemma CreateLevelInfos_mod:
  "CreateLevelInfos s pr l =
     LevelInfo pr (word_of_nat ((\<Sum>h\<leftarrow>l. unat (remainingQuantity (deref s h))) mod 2 ^ 32))"
proof -
  have "foldl (\<lambda>runningSum ptr. runningSum + remainingQuantity (deref s ptr)) 0 l =
      sum_list (map (\<lambda>h. remainingQuantity (deref s h)) l)"
    by (simp add: foldl_plus_sum_list)
  also have "\<dots> = word_of_nat (unat (sum_list (map (\<lambda>h. remainingQuantity (deref s h)) l)))"
    by simp
  also have "\<dots> = word_of_nat ((\<Sum>h\<leftarrow>l. unat (remainingQuantity (deref s h))) mod 2 ^ 32)"
    by (simp only: unat_sum_list)
  finally show ?thesis by (simp add: CreateLevelInfos_def)
qed

section \<open>FillAndKill orders never rest\<close>

text \<open>
  C1.  After any add to a reachable book has returned, no FillAndKill order is linked in
  any list of the book, the ID index points to no FillAndKill order, and a FillAndKill
  order that was submitted under an id not in use is not in the ID index.  (The call
  returns unless the pool is exhausted.)
\<close>

theorem C1_fak_never_rests:
  assumes "reachable s"
  shows "AddOrder ty oid sd pr q s = Some (Inl PoolExhausted) \<or>
     (\<exists>ts s'. AddOrder ty oid sd pr q s = Some (Inr (ts, s')) \<and> no_fak s' \<and>
        (\<forall>i h. orders s' i = Some h \<longrightarrow> orderType (deref s' h) \<noteq> FillAndKill) \<and>
        (ty = FillAndKill \<longrightarrow> orders s oid = None \<longrightarrow> orders s' oid = None))"
proof -
  have I: "book_inv s" using assms by (rule reachable_inv)
  from AddOrder_inv [OF I, of ty oid sd pr q]
  consider "AddOrder ty oid sd pr q s = Some (Inl PoolExhausted)"
    | ts s' where "AddOrder ty oid sd pr q s = Some (Inr (ts, s'))" "book_inv s'"
        "\<forall>x. orders s oid = None \<longrightarrow> orders s' oid = Some x \<longrightarrow>
           (\<exists>r. r \<le> q \<and> deref s' x = (Order_new ty oid sd pr q)\<lparr>remainingQuantity := r\<rparr>)"
    by blast
  then show ?thesis
  proof cases
    case 1
    then show ?thesis by simp
  next
    case 2
    from 2(2) have w: "wf_book s'" and nf: "no_fak s'" by (simp_all add: book_inv_def)
    have ix: "\<forall>i h. orders s' i = Some h \<longrightarrow> orderType (deref s' h) \<noteq> FillAndKill"
      using w nf by (auto simp: wf_book_def no_fak_def)
    have fr: "ty = FillAndKill \<longrightarrow> orders s oid = None \<longrightarrow> orders s' oid = None"
    proof (intro impI, rule ccontr)
      assume t: "ty = FillAndKill" and o: "orders s oid = None" and n: "orders s' oid \<noteq> None"
      then obtain x where x: "orders s' oid = Some x" by auto
      with 2(3) o obtain r where "deref s' x = (Order_new ty oid sd pr q)\<lparr>remainingQuantity := r\<rparr>"
        by blast
      then have "orderType (deref s' x) = FillAndKill" using t by (simp add: Order_new_def)
      then show False using ix x by blast
    qed
    show ?thesis
      using 2(1) nf ix fr by (intro disjI2 exI [of _ ts] exI [of _ s']) simp
  qed
qed

theorem C1_fak_never_rests_witness:
  "reachable (book_bid1 4) \<and>
   AddOrder FillAndKill 2 Sell 100 10 (book_bid1 4) =
     Some (Inr ([Trade (TradeInfo 1 100 4) (TradeInfo 2 100 4)], book_S5)) \<and>
   no_fak book_S5 \<and> orders (book_bid1 4) 2 = None \<and> orders book_S5 2 = None"
proof -
  have "orders (book_bid1 4) 2 = None" by (simp add: book_bid1_def)
  then show ?thesis
    using C1_fak_never_rests [OF reachable_book_bid1, of FillAndKill 2 Sell 100 10 4] add_S5
      reachable_book_bid1 [of 4]
    by auto
qed

section \<open>The book is never crossed\<close>

text \<open>
  C2.  In every reachable book with bids and asks, the price of the first bid level is
  the highest bid price, the price of the first ask level is the lowest ask price, and
  the former is strictly less than the latter.
\<close>

theorem C2_never_crossed:
  assumes "reachable s" "bids s \<noteq> []" "asks s \<noteq> []"
  shows "fst (hd (bids s)) = Max (fst ` set (bids s)) \<and>
     fst (hd (asks s)) = Min (fst ` set (asks s)) \<and>
     Max (fst ` set (bids s)) < Min (fst ` set (asks s))"
proof -
  have I: "book_inv s" using assms(1) by (rule reachable_inv)
  then have sb: "sorted_wrt (>) (map fst (bids s))" and sa: "sorted_wrt (<) (map fst (asks s))"
    and u: "uncrossed s"
    by (simp_all add: book_inv_def wf_book_def side_ok_def)
  have b: "fst (hd (bids s)) = Max (fst ` set (bids s))"
    using sb assms(2) by (rule hd_Max_keys)
  have a: "fst (hd (asks s)) = Min (fst ` set (asks s))"
    using sa assms(3) by (rule hd_Min_keys)
  have "fst (hd (bids s)) \<in> fst ` set (bids s)" "fst (hd (asks s)) \<in> fst ` set (asks s)"
    using assms(2,3) by simp_all
  then have "fst (hd (bids s)) < fst (hd (asks s))"
    using u unfolding uncrossed_def by blast
  then show ?thesis using a b by simp
qed

theorem C2_never_crossed_witness:
  "reachable book_bid_ask \<and> bids book_bid_ask \<noteq> [] \<and> asks book_bid_ask \<noteq> [] \<and>
   fst (hd (bids book_bid_ask)) = 100 \<and> fst (hd (asks book_bid_ask)) = 101 \<and>
   Max (fst ` set (bids book_bid_ask)) < Min (fst ` set (asks book_bid_ask))"
proof -
  have n: "bids book_bid_ask \<noteq> []" "asks book_bid_ask \<noteq> []"
    by (simp_all add: book_bid_ask_def)
  have "fst (hd (bids book_bid_ask)) = 100" "fst (hd (asks book_bid_ask)) = 101"
    by (simp_all add: book_bid_ask_def)
  then show ?thesis
    using C2_never_crossed [OF reachable_book_bid_ask n] reachable_book_bid_ask n by simp
qed

section \<open>Remaining quantities\<close>




section \<open>Silent no-ops\<close>



section \<open>Modify\<close>



section \<open>Scenario S5\<close>


section \<open>Price-time priority\<close>



section \<open>Fill\<close>

text \<open>
  C8.  \<open>Fill\<close> is the error exactly when the quantity exceeds the remaining quantity, and
  takes the quantity off otherwise.  On every well-formed book whose best levels have the
  heads \<open>b\<close> and \<open>a\<close>, the quantity \<open>min\<close> of the two remaining quantities meets the
  precondition of both fills of the loop body, which therefore succeed; and no public
  operation on a reachable book ends in the error of \<open>Fill\<close>: it returns, with a result
  or with the exhaustion of the pool.
\<close>

theorem C8_fill_precondition:
  "Fill q ord =
     (if remainingQuantity ord < q then Inl FillTooLarge
      else Inr (ord\<lparr>remainingQuantity := remainingQuantity ord - q\<rparr>)) \<and>
   (wf_book s \<longrightarrow> bids s = (bp, b # bl) # br \<longrightarrow> asks s = (ap, a # al) # ar \<longrightarrow>
      (\<exists>p1 p2 r.
         Fill_at b (min (remainingQuantity (deref s b)) (remainingQuantity (deref s a)))
           (orderPool s) = Inr p1 \<and>
         min (remainingQuantity (deref s b)) (remainingQuantity (deref s a))
           \<le> remainingQuantity (pool p1 a) \<and>
         Fill_at a (min (remainingQuantity (deref s b)) (remainingQuantity (deref s a))) p1
           = Inr p2 \<and>
         match_body bp ap s = Inr r)) \<and>
   (reachable s \<longrightarrow>
      apply_event e s = Some (Inl PoolExhausted) \<or>
      (\<exists>ts s'. apply_event e s = Some (Inr (ts, s'))))"
proof (intro conjI impI)
  show "Fill q ord =
     (if remainingQuantity ord < q then Inl FillTooLarge
      else Inr (ord\<lparr>remainingQuantity := remainingQuantity ord - q\<rparr>))"
    by (simp add: Fill_def)
next
  assume w: "wf_book s" and B: "bids s = (bp, b # bl) # br" and A: "asks s = (ap, a # al) # ar"
  let ?q = "min (remainingQuantity (deref s b)) (remainingQuantity (deref s a))"
  note hs = wf_heads [OF w B A]
  have 1: "Fill_at b ?q (orderPool s) = Inr (orderPool (set_remaining b (remainingQuantity (deref s b) - ?q) s))"
    by (simp add: Fill_at_def Fill_def deref_def set_remaining_def)
  have 2: "remainingQuantity (pool (orderPool (set_remaining b (remainingQuantity (deref s b) - ?q) s)) a)
      = remainingQuantity (deref s a)"
    using hs(1) by (simp add: deref_def set_remaining_def)
  then have 3: "\<exists>p2. Fill_at a ?q (orderPool (set_remaining b (remainingQuantity (deref s b) - ?q) s)) = Inr p2"
    by (simp add: Fill_at_def Fill_def)
  have 4: "\<exists>r. match_body bp ap s = Inr r"
    using match_body_summary [OF w B A] by blast
  show "\<exists>p1 p2 r. Fill_at b ?q (orderPool s) = Inr p1 \<and> ?q \<le> remainingQuantity (pool p1 a) \<and>
         Fill_at a ?q p1 = Inr p2 \<and> match_body bp ap s = Inr r"
    using 1 2 3 4 by auto
next
  assume "reachable s"
  then have "book_inv s" by (rule reachable_inv)
  from apply_event_inv [OF this, of e]
  show "apply_event e s = Some (Inl PoolExhausted) \<or> (\<exists>ts s'. apply_event e s = Some (Inr (ts, s')))"
    by blast
qed

theorem C8_fill_precondition_witness:
  "wf_book book_crossing \<and> bids book_crossing = (100, 999999 # [999998]) # [] \<and>
   asks book_crossing = (100, 999997 # []) # [] \<and>
   (\<exists>p1 p2 r.
      Fill_at 999999 (min (remainingQuantity (deref book_crossing 999999))
                          (remainingQuantity (deref book_crossing 999997)))
        (orderPool book_crossing) = Inr p1 \<and>
      min (remainingQuantity (deref book_crossing 999999))
          (remainingQuantity (deref book_crossing 999997)) \<le> remainingQuantity (pool p1 999997) \<and>
      Fill_at 999997 (min (remainingQuantity (deref book_crossing 999999))
                          (remainingQuantity (deref book_crossing 999997))) p1 = Inr p2 \<and>
      match_body 100 100 book_crossing = Inr r) \<and>
   reachable (book_bid1 10) \<and>
   apply_event (Add GoodTillCancel 2 Sell 99 7) (book_bid1 10) =
     Some (Inr ([Trade (TradeInfo 1 100 7) (TradeInfo 2 99 7)], book_partial))"
  using book_crossing_heads(1-3) reachable_book_bid1 [of 10] add_partial
    C8_fill_precondition [where s = book_crossing and bp = 100 and b = 999999 and bl = "[999998]"
      and br = "[]" and ap = 100 and a = 999997 and al = "[]" and ar = "[]"]
  by simp

section \<open>The snapshot\<close>

text \<open>
  C9, as the code has it.  The snapshot lists, for each level stored on each side and in
  the order of that side, the price with the sum of the remaining quantities of the
  orders of the level, taken modulo \<open>2 ^ 32\<close> (the sum is accumulated in a \<open>Quantity\<close>).
  In a reachable book the bid levels are listed in strictly descending and the ask levels
  in strictly ascending order of price, and no stored level is empty.
\<close>

theorem C9_snapshot:
  "GetBids (GetOrderInfos s) =
     map (\<lambda>(pr, l). LevelInfo pr
            (word_of_nat ((\<Sum>h\<leftarrow>l. unat (remainingQuantity (deref s h))) mod 2 ^ 32))) (bids s) \<and>
   GetAsks (GetOrderInfos s) =
     map (\<lambda>(pr, l). LevelInfo pr
            (word_of_nat ((\<Sum>h\<leftarrow>l. unat (remainingQuantity (deref s h))) mod 2 ^ 32))) (asks s) \<and>
   (reachable s \<longrightarrow>
      sorted_wrt (>) (map li_price (GetBids (GetOrderInfos s))) \<and>
      sorted_wrt (<) (map li_price (GetAsks (GetOrderInfos s))) \<and>
      (\<forall>(pr, l) \<in> set (bids s) \<union> set (asks s). l \<noteq> []))"
proof (intro conjI impI)
  show "GetBids (GetOrderInfos s) =
     map (\<lambda>(pr, l). LevelInfo pr
            (word_of_nat ((\<Sum>h\<leftarrow>l. unat (remainingQuantity (deref s h))) mod 2 ^ 32))) (bids s)"
    by (simp add: GetOrderInfos_def CreateLevelInfos_mod)
  show "GetAsks (GetOrderInfos s) =
     map (\<lambda>(pr, l). LevelInfo pr
            (word_of_nat ((\<Sum>h\<leftarrow>l. unat (remainingQuantity (deref s h))) mod 2 ^ 32))) (asks s)"
    by (simp add: GetOrderInfos_def CreateLevelInfos_mod)
next
  assume "reachable s"
  then have "book_inv s" by (rule reachable_inv)
  then have w: "side_ok (>) Buy s (bids s)" "side_ok (<) Sell s (asks s)"
    by (simp_all add: book_inv_def wf_book_def)
  have k: "map li_price (GetBids (GetOrderInfos s)) = map fst (bids s)"
    "map li_price (GetAsks (GetOrderInfos s)) = map fst (asks s)"
    by (simp_all add: GetOrderInfos_def CreateLevelInfos_def comp_def case_prod_beta)
  show "sorted_wrt (>) (map li_price (GetBids (GetOrderInfos s)))"
    using w(1) by (simp add: k side_ok_def)
  show "sorted_wrt (<) (map li_price (GetAsks (GetOrderInfos s)))"
    using w(2) by (simp add: k side_ok_def)
  show "\<forall>(pr, l) \<in> set (bids s) \<union> set (asks s). l \<noteq> []"
    using w by (auto simp: side_ok_def)
qed

theorem C9_snapshot_witness:
  "reachable book_bid_ask \<and>
   GetOrderInfos book_bid_ask = OrderBookLevelInfos [LevelInfo 100 10] [LevelInfo 101 5] \<and>
   sorted_wrt (>) (map li_price (GetBids (GetOrderInfos book_bid_ask))) \<and>
   sorted_wrt (<) (map li_price (GetAsks (GetOrderInfos book_bid_ask)))"
proof -
  have g: "GetOrderInfos book_bid_ask = OrderBookLevelInfos [LevelInfo 100 10] [LevelInfo 101 5]"
    by (simp add: GetOrderInfos_def CreateLevelInfos_def book_bid_ask_def deref_def Order_new_def)
  from C9_snapshot [of book_bid_ask] reachable_book_bid_ask
  have "sorted_wrt (>) (map li_price (GetBids (GetOrderInfos book_bid_ask))) \<and>
      sorted_wrt (<) (map li_price (GetAsks (GetOrderInfos book_bid_ask)))"
    by blast
  then show ?thesis
    using g reachable_book_bid_ask by blast
qed

text \<open>
  The claim as stated fails: two bids of \<open>2 ^ 31\<close> at price 100 rest in a reachable book,
  their remaining quantities add up to \<open>2 ^ 32\<close>, and the snapshot reports 0 for the level.
\<close>

theorem C9_sum_wraps:
  "AddOrder GoodTillCancel 1 Buy 100 2147483648 OrderBook_new =
     Some (Inr ([], book_bid1 2147483648)) \<and>
   AddOrder GoodTillCancel 2 Buy 100 2147483648 (book_bid1 2147483648) =
     Some (Inr ([], book_bid2 2147483648 2147483648)) \<and>
   bids (book_bid2 2147483648 2147483648) = [(100, [999999, 999998])] \<and>
   unat (remainingQuantity (deref (book_bid2 2147483648 2147483648) 999999)) +
   unat (remainingQuantity (deref (book_bid2 2147483648 2147483648) 999998)) = 4294967296 \<and>
   GetBids (GetOrderInfos (book_bid2 2147483648 2147483648)) = [LevelInfo 100 0]"
  using add_bid1 [of 2147483648] add_bid2 [of 2147483648 2147483648]
  by (simp add: GetOrderInfos_def CreateLevelInfos_def book_bid2_def deref_def Order_new_def)

section \<open>Trade prices\<close>

text \<open>
  C10.  Every trade that an add to a reachable book returns has a bid leg whose price is
  at least the price of its ask leg.
\<close>

theorem C10_trade_prices:
  assumes "reachable s"
  shows "AddOrder ty oid sd pr q s = Some (Inl PoolExhausted) \<or>
     (\<exists>ts s'. AddOrder ty oid sd pr q s = Some (Inr (ts, s')) \<and> trades_ok ts)"
  using AddOrder_inv [OF reachable_inv [OF assms], of ty oid sd pr q] by blast

theorem C10_trade_prices_witness:
  "reachable (book_bid1 10) \<and>
   AddOrder GoodTillCancel 2 Sell 99 7 (book_bid1 10) =
     Some (Inr ([Trade (TradeInfo 1 100 7) (TradeInfo 2 99 7)], book_partial)) \<and>
   trades_ok [Trade (TradeInfo 1 100 7) (TradeInfo 2 99 7)]"
  using C10_trade_prices [OF reachable_book_bid1, of GoodTillCancel 2 Sell 99 7 10] add_partial
    reachable_book_bid1 [of 10]
  by auto

end
